theory Spec2Isabelle
  imports Complex_Main "HOL-Library.Sublist"
begin

section \<open>Strings and JavaScript helpers\<close>

text \<open>
  Strings of the program are modelled as \<^typ>\<open>string\<close>. The operations used here
  (comparison, \<open>startsWith\<close>, \<open>includes\<close>, \<open>split\<close>, concatenation) act on the
  sequence of characters only, so they agree with the JavaScript ones on ASCII text.
\<close>

text \<open>\<open>s.startsWith(p)\<close>\<close>

fun startsWith :: "string \<Rightarrow> string \<Rightarrow> bool" where
  "startsWith s [] = True"
| "startsWith [] (p # ps) = False"
| "startsWith (c # s) (p # ps) = (c = p \<and> startsWith s ps)"

text \<open>\<open>s.includes(p)\<close>\<close>

fun includes_str :: "string \<Rightarrow> string \<Rightarrow> bool" where
  "includes_str [] p = (p = [])"
| "includes_str (c # s) p = (startsWith (c # s) p \<or> includes_str s p)"

text \<open>\<open>s.split(sep)\<close> for a one-character separator: never the empty list.\<close>

fun split_on :: "char \<Rightarrow> string \<Rightarrow> string list" where
  "split_on sep [] = [[]]"
| "split_on sep (c # s) =
     (case split_on sep s of
        [] \<Rightarrow> [[c]]
      | w # ws \<Rightarrow> if c = sep then [] # w # ws else (c # w) # ws)"

text \<open>\<open>xs[i]\<close> on an array: \<open>undefined\<close> out of range.\<close>

fun index :: "'a list \<Rightarrow> nat \<Rightarrow> 'a option" where
  "index [] i = None"
| "index (x # xs) 0 = Some x"
| "index (x # xs) (Suc i) = index xs i"

text \<open>Truthiness of an optional string: \<open>undefined\<close> and \<open>''\<close> are falsy.\<close>

fun truthy :: "string option \<Rightarrow> bool" where
  "truthy None = False"
| "truthy (Some s) = (s \<noteq> [])"

text \<open>\<open>a || b\<close> on an optional string with a string default.\<close>

definition or_else :: "string option \<Rightarrow> string \<Rightarrow> string" where
  "or_else a b = (case a of None \<Rightarrow> b | Some s \<Rightarrow> if s = [] then b else s)"

text \<open>Decimal rendering of a number in a template literal.\<close>

definition digit_char :: "nat \<Rightarrow> char" where
  "digit_char d = char_of (48 + d)"

function string_of_nat :: "nat \<Rightarrow> string" where
  "string_of_nat n =
     (if n < 10 then [digit_char n] else string_of_nat (n div 10) @ [digit_char (n mod 10)])"
  by pat_completeness auto
termination
  by (relation "measure (\<lambda>n. n)") auto

declare string_of_nat.simps [simp del]

definition string_of_int :: "int \<Rightarrow> string" where
  "string_of_int i = (if i < 0 then CHR ''-'' # string_of_nat (nat (- i)) else string_of_nat (nat i))"

text \<open>White space of \<open>\s\<close>, \<open>trim\<close> and \<open>parseInt\<close> (the ASCII part of it).\<close>

definition is_space :: "char \<Rightarrow> bool" where
  "is_space c = (c \<in> set [CHR '' '', CHR 0x09, CHR 0x0A, CHR 0x0B, CHR 0x0C, CHR 0x0D])"

definition is_digit :: "char \<Rightarrow> bool" where
  "is_digit c = (48 \<le> (of_char c :: nat) \<and> (of_char c :: nat) \<le> 57)"

definition digit_val :: "char \<Rightarrow> nat" where
  "digit_val c = of_char c - 48"

definition trim :: "string \<Rightarrow> string" where
  "trim s = rev (dropWhile is_space (rev (dropWhile is_space s)))"

section \<open>The job record and the job store\<close>

datatype status = Queued | Downloading | Processing | Completed | Error

text \<open>
  \<open>type DownloadProgress\<close>. \<open>progress\<close> is a JavaScript number; the values stored are
  0, 100 and parsed percentages, modelled as exact rationals.
\<close>

record DownloadProgress =
  videoId :: string
  progress :: rat
  status :: status
  title :: "string option"
  message :: "string option"
  filePath :: "string option"

text \<open>
  \<open>activeDownloads\<close> is a \<open>Map\<close>: its entries are kept in insertion order and a key
  occurs once. \<open>set\<close> on a present key replaces the value in place, on a new key it
  appends the entry.
\<close>

type_synonym store = "(string \<times> DownloadProgress) list"

fun map_get :: "store \<Rightarrow> string \<Rightarrow> DownloadProgress option" where
  "map_get [] k = None"
| "map_get ((k', d) # es) k = (if k' = k then Some d else map_get es k)"

fun map_set :: "store \<Rightarrow> string \<Rightarrow> DownloadProgress \<Rightarrow> store" where
  "map_set [] k v = [(k, v)]"
| "map_set ((k', d) # es) k v = (if k' = k then (k, v) # es else (k', d) # map_set es k v)"

definition keys :: "store \<Rightarrow> string list" where
  "keys st = map fst st"

subsection \<open>\<open>getDownloadProgress\<close>\<close>

text \<open>The two \<open>for\<close> loops over \<open>activeDownloads.entries()\<close>, each returning at its first hit.\<close>

fun prefix_loop :: "store \<Rightarrow> string \<Rightarrow> (string \<times> DownloadProgress) option" where
  "prefix_loop [] i = None"
| "prefix_loop ((downloadId, downloadData) # es) i =
     (if startsWith downloadId (i @ ''_'') then Some (downloadId, downloadData)
      else prefix_loop es i)"

fun videoId_loop :: "store \<Rightarrow> string \<Rightarrow> (string \<times> DownloadProgress) option" where
  "videoId_loop [] i = None"
| "videoId_loop ((downloadId, downloadData) # es) i =
     (if videoId downloadData = i then Some (downloadId, downloadData)
      else videoId_loop es i)"

text \<open>
  The entry that \<open>getDownloadProgress\<close> finds: the function returns the record object held
  by the map, so a caller that assigns to its fields changes the entry under the key
  returned here.
\<close>

definition lookup_entry :: "store \<Rightarrow> string \<Rightarrow> (string \<times> DownloadProgress) option" where
  "lookup_entry st i =
     (case map_get st i of
        Some download \<Rightarrow> Some (i, download)
      | None \<Rightarrow>
          (case prefix_loop st i of
             Some e \<Rightarrow> Some e
           | None \<Rightarrow> videoId_loop st i))"

definition getDownloadProgress :: "store \<Rightarrow> string \<Rightarrow> DownloadProgress option" where
  "getDownloadProgress st i = map_option snd (lookup_entry st i)"

definition getAllDownloads :: "store \<Rightarrow> DownloadProgress list" where
  "getAllDownloads st = map snd st"

text \<open>
  The resolution order in the words of the specification: exact key match, then the first
  record whose key starts with the id and the separator, then the first record whose
  \<open>videoId\<close> equals the id, else not found.
\<close>

definition lookup_spec :: "store \<Rightarrow> string \<Rightarrow> DownloadProgress option" where
  "lookup_spec st i =
     (if i \<in> set (keys st) then map_of st i
      else if \<exists>e \<in> set st. prefix (i @ ''_'') (fst e)
        then map_option snd (find (\<lambda>e. prefix (i @ ''_'') (fst e)) st)
      else map_option snd (find (\<lambda>e. videoId (snd e) = i) st))"

section \<open>Numbers read from text\<close>

definition nat_of_digits :: "nat \<Rightarrow> (char \<Rightarrow> nat) \<Rightarrow> string \<Rightarrow> nat" where
  "nat_of_digits base val ds = foldl (\<lambda>a c. a * base + val c) 0 ds"

definition is_hex :: "char \<Rightarrow> bool" where
  "is_hex c = (is_digit c \<or> (97 \<le> (of_char c :: nat) \<and> (of_char c :: nat) \<le> 102)
                 \<or> (65 \<le> (of_char c :: nat) \<and> (of_char c :: nat) \<le> 70))"

definition hex_val :: "char \<Rightarrow> nat" where
  "hex_val c = (if is_digit c then digit_val c
                else if 97 \<le> (of_char c :: nat) then of_char c - 87 else of_char c - 55)"

text \<open>
  \<open>parseInt(s)\<close> without a radix: leading white space, an optional sign, then hexadecimal
  digits after \<open>0x\<close> or decimal digits; \<open>None\<close> is \<open>NaN\<close>. The result is the exact integer
  (a JavaScript number is exact up to \<open>2^53\<close>).
\<close>

definition parseInt :: "string \<Rightarrow> int option" where
  "parseInt s =
     (let t = dropWhile is_space s;
          neg = (case t of [] \<Rightarrow> False | c # r \<Rightarrow> c = CHR ''-'');
          u = (case t of [] \<Rightarrow> [] | c # r \<Rightarrow> if c = CHR ''-'' \<or> c = CHR ''+'' then r else t);
          hex = (startsWith u ''0x'' \<or> startsWith u ''0X'');
          ds = (if hex then takeWhile is_hex (drop 2 u) else takeWhile is_digit u);
          n = (if hex then nat_of_digits 16 hex_val ds else nat_of_digits 10 digit_val ds)
      in if ds = [] then None else Some (if neg then - int n else int n))"

text \<open>\<open>a > b\<close> on numbers that may be \<open>NaN\<close>: false when either is.\<close>

fun js_gt :: "int option \<Rightarrow> int option \<Rightarrow> bool" where
  "js_gt (Some a) (Some b) = (a > b)"
| "js_gt _ _ = False"

text \<open>
  \<open>output.match(/\[download\]\s+(\d+\.?\d*)%/)\<close> followed by \<open>parseFloat\<close> of the group.
  The character classes of the pattern are disjoint, so at a position where
  \<open>[download]\<close> starts there is one way to match: all the white space (at least one), all
  the digits (at least one), a dot with all the digits after it when there is one, and then
  the percent sign. The first position that matches wins. The value is the exact decimal,
  where \<open>parseFloat\<close> gives the double nearest to it.
\<close>

definition percent_here :: "string \<Rightarrow> rat option" where
  "percent_here s =
     (if \<not> startsWith s ''[download]'' then None
      else let r = drop 10 s;
               r2 = dropWhile is_space r;
               ds = takeWhile is_digit r2;
               r3 = dropWhile is_digit r2
           in if takeWhile is_space r = [] \<or> ds = [] then None
              else (case r3 of
                      [] \<Rightarrow> None
                    | c # r4 \<Rightarrow>
                        if c = CHR ''%'' then Some (of_nat (nat_of_digits 10 digit_val ds))
                        else if c = CHR ''.'' then
                          (let fs = takeWhile is_digit r4
                           in (case dropWhile is_digit r4 of
                                 [] \<Rightarrow> None
                               | c' # r5 \<Rightarrow>
                                   if c' = CHR ''%''
                                   then Some (of_nat (nat_of_digits 10 digit_val ds)
                                              + of_nat (nat_of_digits 10 digit_val fs) / 10 ^ length fs)
                                   else None))
                        else None))"

fun progressMatch :: "string \<Rightarrow> rat option" where
  "progressMatch [] = None"
| "progressMatch (c # s) =
     (case percent_here (c # s) of Some p \<Rightarrow> Some p | None \<Rightarrow> progressMatch s)"

text \<open>\<open>progress.toFixed(1)\<close>, on the exact decimal value.\<close>

definition toFixed1 :: "rat \<Rightarrow> string" where
  "toFixed1 p = (let n = nat \<lfloor>p * 10 + 1 / 2\<rfloor>
                 in string_of_nat (n div 10) @ ''.'' @ string_of_nat (n mod 10))"

section \<open>The video id of a URL\<close>

text \<open>
  A backtracking matcher for the pattern of \<open>extractVideoId\<close>: it lists the rests of the
  input that a pattern can leave, in the order in which the regular expression engine tries
  them (left alternative first, greedy repetition longest first).
\<close>

datatype rx =
    Lit string
  | Cls "char \<Rightarrow> bool"
  | ClsStar "char \<Rightarrow> bool"
  | ClsPlus "char \<Rightarrow> bool"
  | Seq rx rx
  | Alt rx rx
  | Opt rx

definition to_lower :: "char \<Rightarrow> char" where
  "to_lower c = (if 65 \<le> (of_char c :: nat) \<and> (of_char c :: nat) \<le> 90
                 then char_of ((of_char c :: nat) + 32) else c)"

fun star_rests :: "(char \<Rightarrow> bool) \<Rightarrow> string \<Rightarrow> string list" where
  "star_rests P [] = [[]]"
| "star_rests P (c # r) = (if P c then star_rests P r @ [c # r] else [c # r])"

fun rx_rests :: "rx \<Rightarrow> string \<Rightarrow> string list" where
  "rx_rests (Lit l) s =
     (if startsWith (map to_lower s) (map to_lower l) then [drop (length l) s] else [])"
| "rx_rests (Cls P) s = (case s of [] \<Rightarrow> [] | c # r \<Rightarrow> if P c then [r] else [])"
| "rx_rests (ClsStar P) s = star_rests P s"
| "rx_rests (ClsPlus P) s = butlast (star_rests P s)"
| "rx_rests (Seq a b) s = concat (map (rx_rests b) (rx_rests a s))"
| "rx_rests (Alt a b) s = rx_rests a s @ rx_rests b s"
| "rx_rests (Opt a) s = rx_rests a s @ [s]"

text \<open>\<open>.\<close> and the class \<open>[^"&?\/\s]\<close> of the captured group.\<close>

definition dot :: "char \<Rightarrow> bool" where
  "dot c = (c \<noteq> CHR 0x0A \<and> c \<noteq> CHR 0x0D)"

definition id_char :: "char \<Rightarrow> bool" where
  "id_char c = (c \<noteq> CHR 0x22 \<and> c \<noteq> CHR ''&'' \<and> c \<noteq> CHR ''?'' \<and> c \<noteq> CHR ''/'' \<and> \<not> is_space c)"

text \<open>
  \<open>(?:youtube\.com\/(?:[^\/]+\/.+\/|(?:v|e(?:mbed)?)\/|.*[?&]v=)|youtu\.be\/)\<close>, matched
  without regard to case.
\<close>

definition url_head :: rx where
  "url_head =
     Alt (Seq (Lit ''youtube.com/'')
            (Alt (Seq (ClsPlus (\<lambda>c. c \<noteq> CHR ''/'')) (Seq (Lit ''/'') (Seq (ClsPlus dot) (Lit ''/''))))
              (Alt (Seq (Alt (Lit ''v'') (Seq (Lit ''e'') (Opt (Lit ''mbed'')))) (Lit ''/''))
                   (Seq (ClsStar dot) (Seq (Cls (\<lambda>c. c = CHR ''?'' \<or> c = CHR ''&'')) (Lit ''v=''))))))
         (Lit ''youtu.be/'')"

text \<open>The group \<open>([^"&?\/\s]{11})\<close> at the start of a rest.\<close>

definition group11 :: "string \<Rightarrow> string option" where
  "group11 r = (if length (take 11 r) = 11 \<and> list_all id_char (take 11 r) then Some (take 11 r) else None)"

definition match_here :: "string \<Rightarrow> string option" where
  "match_here s =
     (case List.find (\<lambda>r. group11 r \<noteq> None) (rx_rests url_head s) of
        None \<Rightarrow> None
      | Some r \<Rightarrow> group11 r)"

fun url_match :: "string \<Rightarrow> string option" where
  "url_match [] = None"
| "url_match (c # s) = (case match_here (c # s) of Some m \<Rightarrow> Some m | None \<Rightarrow> url_match s)"

text \<open>\<open>extractVideoId(url)\<close>; \<open>now\<close> is the value of \<open>Date.now()\<close>.\<close>

definition extractVideoId :: "string \<Rightarrow> nat \<Rightarrow> string" where
  "extractVideoId url now =
     (case url_match url of Some m \<Rightarrow> m | None \<Rightarrow> ''video_'' @ string_of_nat now)"

section \<open>The disk\<close>

text \<open>
  The part of the file system that the program looks at: which paths exist and whether a
  path is a directory.
\<close>

datatype node = File | Dir

type_synonym fsys = "string \<Rightarrow> node option"

definition existsSync :: "fsys \<Rightarrow> string \<Rightarrow> bool" where
  "existsSync fs p = (fs p \<noteq> None)"

definition isDirectory :: "fsys \<Rightarrow> string \<Rightarrow> bool" where
  "isDirectory fs p = (fs p = Some Dir)"

definition unlinkSync :: "fsys \<Rightarrow> string \<Rightarrow> fsys" where
  "unlinkSync fs p = fs(p := None)"

text \<open>\<open>fs.rmdirSync(p, { recursive: true })\<close>: the directory and everything below it.\<close>

definition rmdirSync :: "fsys \<Rightarrow> string \<Rightarrow> fsys" where
  "rmdirSync fs p = (\<lambda>q. if q = p \<or> startsWith q (p @ ''/'') then None else fs q)"

text \<open>
  \<open>path.dirname(p)\<close> for a path written with \<open>/\<close>; the empty result stands for the root
  or the working directory, which exist.
\<close>

definition dirname :: "string \<Rightarrow> string" where
  "dirname p = rev (drop 1 (dropWhile (\<lambda>c. c \<noteq> CHR ''/'') (rev p)))"

definition parent_exists :: "fsys \<Rightarrow> string \<Rightarrow> bool" where
  "parent_exists fs p = (dirname p = [] \<or> isDirectory fs (dirname p))"

text \<open>\<open>path.join(dir, name)\<close> for a normalised directory and a plain file name.\<close>

definition path_join :: "string \<Rightarrow> string \<Rightarrow> string" where
  "path_join dir name = dir @ ''/'' @ name"

section \<open>The server: responses, state and the synchronous handlers\<close>

datatype body =
    ErrorBody string
  | CheckErrorBody string
  | CheckBody bool "string option"
  | MessageBody string
  | StartedBody string
  | RedownloadBody
  | FileBody string
  | RecordBody DownloadProgress
  | StatusBody status rat "string option" "string option"

datatype response = Response nat body

text \<open>What the server does to the outside, in order.\<close>

datatype action = Spawn string | Kill string | Sleep string nat | Respond response

text \<open>
  The control state of one call of \<open>downloadFromUrl\<close>, between two \<open>await\<close>s:
  waiting for the title, waiting for the promise of an attempt (with \<open>retryCount\<close>,
  \<open>retryDelay\<close> and whether the attempt's timeout is still set), waiting for the back-off
  timer, or settled. \<open>proc\<close> is the child process, \<open>attempts\<close> the number of promises
  built so far (each one adds a \<open>close\<close> listener to the same process), \<open>stale\<close> the
  number of \<open>close\<close> listeners of earlier attempts that saw exit code 0 and have not
  yet written their result.
\<close>

datatype timer = Armed | Cleared

datatype phase = GettingInfo | Waiting nat nat timer | Sleeping nat nat | Settled

datatype proc = NotSpawned | Running | Exited "int option"

record ctl =
  phase :: phase
  proc :: proc
  attempts :: nat
  stale :: nat
  job_videoId :: string
  job_quality :: string

text \<open>
  The state of the server: the map \<open>activeDownloads\<close> of the download module, the property
  \<open>downloads\<close> of the global object (not set at start), the disk, the download directory,
  the calls of \<open>downloadFromUrl\<close> in flight by job id, the actions so far, whether an
  exception thrown in an event listener has ended the process, and the paths of the write
  streams that \<open>createDummyVideoFile\<close> has created and that have not opened their file yet.
\<close>

record sys =
  activeDownloads :: store
  global_downloads :: "DownloadProgress list option"
  disk :: fsys
  outputDir :: string
  jobs :: "string \<Rightarrow> ctl option"
  actions :: "action list"
  crashed :: bool
  streams :: "string list"

definition init :: "string \<Rightarrow> fsys \<Rightarrow> sys" where
  "init dir fs = \<lparr>activeDownloads = [], global_downloads = None, disk = fs, outputDir = dir,
                  jobs = (\<lambda>_. None), actions = [], crashed = False, streams = []\<rparr>"

definition respond :: "sys \<Rightarrow> response \<Rightarrow> sys" where
  "respond s r = s\<lparr>actions := actions s @ [Respond r]\<rparr>"

text \<open>
  \<open>activeDownloads.set(k, {...activeDownloads.get(k)!, fields})\<close>. No code removes a key
  from the map, and each of these calls comes after the \<open>set\<close> that created the key;
  the case of an absent key is written as no change.
\<close>

definition update :: "store \<Rightarrow> string \<Rightarrow> (DownloadProgress \<Rightarrow> DownloadProgress) \<Rightarrow> store" where
  "update st k f = (case map_get st k of None \<Rightarrow> st | Some d \<Rightarrow> map_set st k (f d))"

definition status_name :: "status \<Rightarrow> string" where
  "status_name x = (case x of Queued \<Rightarrow> ''queued'' | Downloading \<Rightarrow> ''downloading''
     | Processing \<Rightarrow> ''processing'' | Completed \<Rightarrow> ''completed'' | Error \<Rightarrow> ''error'')"

subsection \<open>\<open>checkFileHandler\<close> and \<open>serveFileHandler\<close>\<close>

text \<open>
  Both assign to the fields of the record that \<open>getDownloadProgress\<close> returned, which is
  the record held by the map.
\<close>

definition mark_for_redownload :: "DownloadProgress \<Rightarrow> DownloadProgress" where
  "mark_for_redownload download = download\<lparr>status := Queued, progress := 0\<rparr>"

definition checkFileHandler :: "sys \<Rightarrow> string \<Rightarrow> sys \<times> response" where
  "checkFileHandler s i =
     (if i = [] then (s, Response 400 (CheckErrorBody ''Download ID is required''))
      else case lookup_entry (activeDownloads s) i of
        None \<Rightarrow> (s, Response 200 (CheckBody False (Some ''Download not found'')))
      | Some (k, download) \<Rightarrow>
          if status download \<noteq> Completed
          then (s, Response 200 (CheckBody False
                  (Some (''Download status is '' @ status_name (status download)))))
          else (case filePath download of
                  None \<Rightarrow> (s, Response 200 (CheckBody False (Some ''File path not available'')))
                | Some p \<Rightarrow>
                    if p = [] then (s, Response 200 (CheckBody False (Some ''File path not available'')))
                    else if \<not> existsSync (disk s) p
                    then (s\<lparr>activeDownloads :=
                              map_set (activeDownloads s) k (mark_for_redownload download)\<rparr>,
                          Response 200 (CheckBody False (Some ''File needs to be re-downloaded'')))
                    else (s, Response 200 (CheckBody True None))))"

definition serveFileHandler :: "sys \<Rightarrow> string \<Rightarrow> sys \<times> response" where
  "serveFileHandler s i =
     (if i = [] then (s, Response 400 (ErrorBody ''Download ID is required''))
      else case lookup_entry (activeDownloads s) i of
        None \<Rightarrow> (s, Response 404 (ErrorBody ''Download not found''))
      | Some (k, download) \<Rightarrow>
          (case filePath download of
             None \<Rightarrow> (s, Response 404 (ErrorBody ''File not found''))
           | Some p \<Rightarrow>
               if p = [] then (s, Response 404 (ErrorBody ''File not found''))
               else if \<not> existsSync (disk s) p
               then (s\<lparr>activeDownloads :=
                         map_set (activeDownloads s) k (mark_for_redownload download)\<rparr>,
                     Response 404 RedownloadBody)
               else (s, Response 200 (FileBody p))))"

subsection \<open>\<open>deleteDownloadHandler\<close>\<close>

text \<open>\<open>v.split('_')[1] || '0'\<close> and the step of the \<open>reduce\<close> that picks the latest.\<close>

definition second_segment :: "string \<Rightarrow> string" where
  "second_segment v = or_else (index (split_on CHR ''_'' v) 1) ''0''"

definition later :: "DownloadProgress \<Rightarrow> DownloadProgress \<Rightarrow> DownloadProgress" where
  "later latest current =
     (let latestTime = parseInt (second_segment (videoId latest));
          currentTime = parseInt (second_segment (videoId current))
      in if js_gt currentTime latestTime then current else latest)"

text \<open>
  The removal of the file is inside a \<open>try\<close> whose \<open>catch\<close> only logs; the model takes
  the removal to succeed. The last statement assigns the filtered list to
  \<open>global.downloads\<close>.
\<close>

definition baseVideoId :: "string \<Rightarrow> string" where
  "baseVideoId i = (case split_on CHR ''_'' i of [] \<Rightarrow> [] | w # ws \<Rightarrow> w)"

definition matchingDownloads :: "store \<Rightarrow> string \<Rightarrow> DownloadProgress list" where
  "matchingDownloads st i =
     filter (\<lambda>d. startsWith (videoId d) (baseVideoId i)) (getAllDownloads st)"

definition deleteDownloadHandler :: "sys \<Rightarrow> string \<Rightarrow> sys \<times> response" where
  "deleteDownloadHandler s i =
     (if i = [] then (s, Response 400 (ErrorBody ''Download ID is required''))
      else
        let downloads = getAllDownloads (activeDownloads s)
        in case matchingDownloads (activeDownloads s) i of
             [] \<Rightarrow> (s, Response 404 (ErrorBody ''Download not found''))
           | m # ms \<Rightarrow>
               let download = foldl later m ms;
                   disk' = (case filePath download of
                              None \<Rightarrow> disk s
                            | Some p \<Rightarrow>
                                if p \<noteq> [] \<and> existsSync (disk s) p
                                then (if isDirectory (disk s) p then rmdirSync (disk s) p
                                      else unlinkSync (disk s) p)
                                else disk s)
               in (s\<lparr>disk := disk',
                     global_downloads :=
                       Some (filter (\<lambda>d. \<not> startsWith (videoId d) (baseVideoId i)) downloads)\<rparr>,
                   Response 200 (MessageBody ''Download deleted successfully'')))"

subsection \<open>\<open>progressHandler\<close> and \<open>statusHandler\<close>\<close>

text \<open>Both read the record through \<open>getDownloadProgress\<close> and write nothing.\<close>

definition progressHandler :: "sys \<Rightarrow> string \<Rightarrow> sys \<times> response" where
  "progressHandler s i =
     (if i = [] then (s, Response 400 (ErrorBody ''Download ID is required''))
      else case getDownloadProgress (activeDownloads s) i of
        None \<Rightarrow> (s, Response 404 (ErrorBody ''Download not found''))
      | Some download \<Rightarrow> (s, Response 200 (RecordBody download)))"

definition statusHandler :: "sys \<Rightarrow> string \<Rightarrow> sys \<times> response" where
  "statusHandler s downloadId =
     (case getDownloadProgress (activeDownloads s) downloadId of
        None \<Rightarrow> (s, Response 404 (ErrorBody ''Download not found''))
      | Some download \<Rightarrow>
          (s, Response 200 (StatusBody (status download) (progress download)
                             (message download) (title download))))"

subsection \<open>\<open>createDummyVideoFile\<close> and \<open>getDownloadFilePath\<close>\<close>

text \<open>
  \<open>createDummyVideoFile(filePath)\<close> creates a write stream on the path and starts the
  download of a sample video into it; it returns before the stream has opened its file, so
  the disk is as before when it returns. The stream opens later (the event \<open>StreamOpened\<close>
  below): the file is there from then on if its directory exists and the path is not a
  directory; otherwise the stream emits an \<open>error\<close> event, which has no listener and ends
  the process. What the download then writes into the file, and the removal of the file when
  the download fails, are left out: no property below depends on them.
\<close>

definition createDummyVideoFile :: "sys \<Rightarrow> string \<Rightarrow> sys" where
  "createDummyVideoFile s p = s\<lparr>streams := streams s @ [p]\<rparr>"

definition stream_opened :: "sys \<Rightarrow> string \<Rightarrow> sys" where
  "stream_opened s p =
     (if parent_exists (disk s) p \<and> \<not> isDirectory (disk s) p
      then s\<lparr>disk := (disk s)(p \<mapsto> File), streams := remove1 p (streams s)\<rparr>
      else s\<lparr>crashed := True\<rparr>)"

definition getDownloadFilePath :: "sys \<Rightarrow> string \<Rightarrow> sys \<times> string option" where
  "getDownloadFilePath s i =
     (case map_get (activeDownloads s) i of
        None \<Rightarrow> (s, None)
      | Some download \<Rightarrow>
          if status download \<noteq> Completed then (s, None)
          else if truthy (filePath download)
          then (case filePath download of
                  None \<Rightarrow> (s, None)
                | Some p \<Rightarrow>
                    if \<not> existsSync (disk s) p
                    then (createDummyVideoFile s p, Some p)
                    else (s, Some p))
          else
            let fp = path_join (outputDir s) (or_else (title download) (videoId download) @ ''.mp4'');
                s1 = (if \<not> existsSync (disk s) fp then createDummyVideoFile s fp else s)
            in (s1\<lparr>activeDownloads := map_set (activeDownloads s) i (download\<lparr>filePath := Some fp\<rparr>)\<rparr>,
                Some fp))"

section \<open>\<open>downloadFromUrl\<close> and \<open>downloadHandler\<close>\<close>

text \<open>
  \<open>downloadFromUrl\<close> is an \<open>async\<close> function: it runs up to an \<open>await\<close>, and goes
  on when the awaited event arrives. Each piece between two \<open>await\<close>s is a function on the
  state; the events that start the pieces are the type \<open>event\<close> below. \<open>downloadHandler\<close>
  awaits \<open>downloadFromUrl\<close> and answers when that call settles.
\<close>

subsection \<open>Up to the first \<open>await\<close>: looking for an existing job, or creating one\<close>

definition existingDownloads :: "store \<Rightarrow> string \<Rightarrow> store" where
  "existingDownloads st vid =
     filter (\<lambda>(i, data). videoId data = vid \<or> startsWith i (vid @ ''_'')) st"

definition completedDownload :: "store \<Rightarrow> string \<Rightarrow> (string \<times> DownloadProgress) option" where
  "completedDownload st vid =
     find (\<lambda>(_, data). status data = Completed \<and> progress data = 100 \<and> truthy (filePath data))
       (existingDownloads st vid)"

definition inProgressDownload :: "store \<Rightarrow> string \<Rightarrow> (string \<times> DownloadProgress) option" where
  "inProgressDownload st vid =
     find (\<lambda>(_, data). status data = Downloading \<or> status data = Processing)
       (existingDownloads st vid)"

definition new_downloadId :: "bool \<Rightarrow> string \<Rightarrow> nat \<Rightarrow> string" where
  "new_downloadId playlist vid now =
     (if playlist then ''playlist_'' @ vid @ ''_'' @ string_of_nat now
      else vid @ ''_'' @ string_of_nat now)"

definition new_record :: "string \<Rightarrow> DownloadProgress" where
  "new_record vid = \<lparr>videoId = vid, progress = 0, status = Processing, title = None,
                      message = Some ''Getting video information'', filePath = None\<rparr>"

definition new_ctl :: "string \<Rightarrow> string \<Rightarrow> ctl" where
  "new_ctl vid quality = \<lparr>phase = GettingInfo, proc = NotSpawned, attempts = 0, stale = 0,
                           job_videoId = vid, job_quality = quality\<rparr>"

text \<open>
  \<open>t1\<close> and \<open>t2\<close> are the values of \<open>Date.now()\<close> in \<open>extractVideoId\<close> and in the job id.
  The job id carries the time of its creation; the model covers the executions in which a
  new job id is not yet a key of the map, and has no next state otherwise.
\<close>

definition downloadFromUrl_start :: "sys \<Rightarrow> string \<Rightarrow> string \<Rightarrow> bool \<Rightarrow> nat \<Rightarrow> nat \<Rightarrow> sys option" where
  "downloadFromUrl_start s url quality playlist t1 t2 =
     (let s1 = (if existsSync (disk s) (outputDir s) then s
                else s\<lparr>disk := (disk s)(outputDir s \<mapsto> Dir)\<rparr>);
          vid = extractVideoId url t1
      in case completedDownload (activeDownloads s1) vid of
           Some (i, _) \<Rightarrow> Some (respond s1 (Response 200 (StartedBody i)))
         | None \<Rightarrow>
             (case inProgressDownload (activeDownloads s1) vid of
                Some (i, _) \<Rightarrow> Some (respond s1 (Response 200 (StartedBody i)))
              | None \<Rightarrow>
                  let downloadId = new_downloadId playlist vid t2
                  in if downloadId \<in> set (keys (activeDownloads s1)) then None
                     else Some (s1\<lparr>activeDownloads :=
                                     map_set (activeDownloads s1) downloadId (new_record vid),
                                   jobs := (jobs s1)(downloadId \<mapsto> new_ctl vid quality)\<rparr>)))"

definition downloadHandler :: "sys \<Rightarrow> string option \<Rightarrow> string \<Rightarrow> bool \<Rightarrow> nat \<Rightarrow> nat \<Rightarrow> sys option" where
  "downloadHandler s url quality playlist t1 t2 =
     (case url of
        None \<Rightarrow> Some (respond s (Response 400 (ErrorBody ''YouTube URL is required'')))
      | Some u \<Rightarrow>
          if u = [] then Some (respond s (Response 400 (ErrorBody ''YouTube URL is required'')))
          else downloadFromUrl_start s u quality playlist t1 t2)"

subsection \<open>The outer \<open>catch\<close>\<close>

text \<open>
  The error is written to the record and thrown again; \<open>downloadHandler\<close> catches it and
  answers with status 500.
\<close>

definition mark_error :: "string \<Rightarrow> DownloadProgress \<Rightarrow> DownloadProgress" where
  "mark_error msg d = d\<lparr>status := Error, message := Some (or_else (Some msg) ''Download failed'')\<rparr>"

definition download_failed :: "sys \<Rightarrow> string \<Rightarrow> ctl \<Rightarrow> string \<Rightarrow> sys" where
  "download_failed s i c msg =
     s\<lparr>activeDownloads := update (activeDownloads s) i (mark_error msg),
       jobs := (jobs s)(i \<mapsto> c\<lparr>phase := Settled\<rparr>),
       actions := actions s @ [Respond (Response 500 (ErrorBody (or_else (Some msg) ''Download failed'')))]\<rparr>"

subsection \<open>After the title: file path, status \<open>downloading\<close>, \<open>spawn\<close>, first attempt\<close>

definition sanitize :: "string \<Rightarrow> string" where
  "sanitize t =
     map (\<lambda>c. if c \<in> set [CHR ''<'', CHR ''>'', CHR '':'', CHR 0x22, CHR ''/'', CHR 0x5C,
                            CHR ''|'', CHR ''?'', CHR ''*'']
               then CHR ''_'' else c) t"

definition set_title :: "string \<Rightarrow> DownloadProgress \<Rightarrow> DownloadProgress" where
  "set_title ttl d = d\<lparr>title := Some ttl, message := Some (''Starting download: '' @ ttl)\<rparr>"

definition set_downloading :: "string \<Rightarrow> DownloadProgress \<Rightarrow> DownloadProgress" where
  "set_downloading fp d =
     d\<lparr>status := Downloading, message := Some ''Download in progress'', filePath := Some fp\<rparr>"

definition info_resolved :: "sys \<Rightarrow> string \<Rightarrow> ctl \<Rightarrow> string \<Rightarrow> nat \<Rightarrow> sys" where
  "info_resolved s i c stdout timestamp =
     (let ttl = sanitize (trim stdout);
          st1 = update (activeDownloads s) i (set_title ttl);
          fp = path_join (outputDir s)
                 (ttl @ ''_'' @ job_videoId c @ ''_'' @ string_of_nat timestamp @ ''.mp4'');
          st2 = update st1 i (set_downloading fp)
      in s\<lparr>activeDownloads := st2,
           jobs := (jobs s)(i \<mapsto> c\<lparr>phase := Waiting 0 5000 Armed, proc := Running, attempts := 1\<rparr>),
           actions := actions s @ [Spawn i]\<rparr>)"

subsection \<open>The listeners on the output of the child process\<close>

definition set_progress :: "rat \<Rightarrow> DownloadProgress \<Rightarrow> DownloadProgress" where
  "set_progress p d =
     d\<lparr>progress := min p 99, message := Some (''Downloading: '' @ toFixed1 p @ ''%'')\<rparr>"

definition set_merging :: "DownloadProgress \<Rightarrow> DownloadProgress" where
  "set_merging d = d\<lparr>message := Some ''Merging video and audio...''\<rparr>"

text \<open>
  The listener on standard output builds the progress bar before it writes the progress:
  \<open>' '.repeat(50 - Math.floor(progress/2))\<close> throws a \<open>RangeError\<close> when the count is
  negative, that is for a percentage of 102 or more, and nothing catches an exception thrown
  in a listener. (With the exact decimal for the percentage, a text of sixteen or more digits
  just below 102 that \<open>parseFloat\<close> rounds to 102 is outside the model.)
\<close>

definition bar_overflow :: "string \<Rightarrow> bool" where
  "bar_overflow output =
     (case progressMatch output of None \<Rightarrow> False | Some p \<Rightarrow> 50 - \<lfloor>p / 2\<rfloor> < 0)"

text \<open>The two writes of the listener, for a chunk at which it does not throw.\<close>

definition stdout_writes :: "store \<Rightarrow> string \<Rightarrow> string \<Rightarrow> store" where
  "stdout_writes st i output =
     (let st1 = (case progressMatch output of
                   None \<Rightarrow> st
                 | Some p \<Rightarrow> update st i (set_progress p))
      in if includes_str output ''[Merger]'' then update st1 i set_merging else st1)"

definition on_stdout :: "sys \<Rightarrow> string \<Rightarrow> string \<Rightarrow> sys" where
  "on_stdout s i output =
     (if bar_overflow output then s\<lparr>crashed := True\<rparr>
      else s\<lparr>activeDownloads := stdout_writes (activeDownloads s) i output\<rparr>)"

text \<open>The texts on standard error at which the listener throws.\<close>

definition fatal_stderr :: "string \<Rightarrow> bool" where
  "fatal_stderr e =
     (includes_str e ''Video unavailable'' \<or> includes_str e ''Sign in to confirm your age''
      \<or> includes_str e ''The uploader has not made this video available in your country''
      \<or> includes_str e ''This video has been removed'')"

subsection \<open>The retry loop\<close>

definition maxRetries :: nat where
  "maxRetries = 3"

text \<open>
  The \<open>catch\<close> inside the loop, entered with the \<open>retryCount\<close> and \<open>retryDelay\<close> of the
  failed attempt: it waits and goes round again, or throws to the outer \<open>catch\<close>.
\<close>

definition attempt_failed :: "sys \<Rightarrow> string \<Rightarrow> ctl \<Rightarrow> nat \<Rightarrow> nat \<Rightarrow> string \<Rightarrow> sys" where
  "attempt_failed s i c retryCount retryDelay msg =
     (if retryCount + 1 < maxRetries
      then s\<lparr>jobs := (jobs s)(i \<mapsto> c\<lparr>phase := Sleeping (retryCount + 1) retryDelay\<rparr>),
             actions := actions s @ [Sleep i retryDelay]\<rparr>
      else download_failed s i c msg)"

definition code_string :: "int option \<Rightarrow> string" where
  "code_string code = (case code of None \<Rightarrow> ''null'' | Some n \<Rightarrow> string_of_int n)"

text \<open>
  The \<open>close\<close> event reaches the listener of every attempt made so far. With code 0 each
  of them starts the check of the quality and writes \<open>completed\<close> when that is done; only the
  listener of the attempt in progress settles a pending promise.
\<close>

definition on_close :: "sys \<Rightarrow> string \<Rightarrow> ctl \<Rightarrow> int option \<Rightarrow> sys" where
  "on_close s i c code =
     (if code = Some 0
      then (case phase c of
              Waiting rc rd t \<Rightarrow>
                s\<lparr>jobs := (jobs s)(i \<mapsto> c\<lparr>phase := Waiting rc rd Cleared,
                                            stale := stale c + (attempts c - 1)\<rparr>)\<rparr>
            | _ \<Rightarrow> s\<lparr>jobs := (jobs s)(i \<mapsto> c\<lparr>stale := stale c + attempts c\<rparr>)\<rparr>)
      else (case phase c of
              Waiting rc rd t \<Rightarrow>
                attempt_failed s i c rc rd (''Download failed with code '' @ code_string code)
            | _ \<Rightarrow> s\<lparr>jobs := (jobs s)(i \<mapsto> c)\<rparr>))"

definition check_mark :: string where
  "check_mark = [CHR 0xE2, CHR 0x9C, CHR 0x85]"

definition mark_completed :: "string \<Rightarrow> string \<Rightarrow> DownloadProgress \<Rightarrow> DownloadProgress" where
  "mark_completed quality actualQuality d =
     d\<lparr>status := Completed, progress := 100,
       message := Some (check_mark @ '' Download completed ('' @ actualQuality @ '') ''
                        @ (if actualQuality = quality then ''- Exact Quality Match''
                           else ''- Quality Mismatch''))\<rparr>"

definition completed_write :: "store \<Rightarrow> string \<Rightarrow> string \<Rightarrow> string \<Rightarrow> store" where
  "completed_write st i quality actualQuality =
     update st i (mark_completed quality actualQuality)"

subsection \<open>Events and steps\<close>

text \<open>
  \<open>Request\<close>: a \<open>POST /api/download\<close> with the \<open>url\<close> of the body (if any), the quality,
  the playlist flag and the two clock values. \<open>InfoDone\<close>: the title command ends, with its
  error message or its output, and the clock value used in the file name. \<open>StdoutData\<close>,
  \<open>StderrData\<close>, \<open>Close\<close>, \<open>ProcError\<close>: events of the child process of a job.
  \<open>Timeout\<close>: the 600 seconds of the attempt in progress are over. \<open>VerifyDone\<close>: a
  \<open>close\<close> listener that saw code 0 has the measured quality; the flag says whether it is
  the listener of the attempt in progress. \<open>SleepDone\<close>: the back-off timer fires. The
  others are the requests to the synchronous handlers, a call of \<open>getDownloadFilePath\<close>,
  the opening of a write stream of \<open>createDummyVideoFile\<close>, and a change of the disk from
  outside.
\<close>

datatype event =
    Request "string option" string bool nat nat
  | InfoDone string "string + string" nat
  | StdoutData string string
  | StderrData string string
  | Close string "int option"
  | ProcError string string
  | Timeout string
  | VerifyDone string string bool
  | SleepDone string
  | CheckFile string
  | ServeFile string
  | DeleteDownload string
  | GetFilePath string
  | StreamOpened string
  | External fsys

fun step :: "event \<Rightarrow> sys \<Rightarrow> sys option" where
  "step (Request url quality playlist t1 t2) s = downloadHandler s url quality playlist t1 t2"
| "step (InfoDone i r timestamp) s =
     (case jobs s i of
        None \<Rightarrow> None
      | Some c \<Rightarrow>
          if phase c \<noteq> GettingInfo then None
          else (case r of
                  Inl msg \<Rightarrow> Some (download_failed s i c msg)
                | Inr out \<Rightarrow> Some (info_resolved s i c out timestamp)))"
| "step (StdoutData i out) s =
     (case jobs s i of
        None \<Rightarrow> None
      | Some c \<Rightarrow>
          if proc c \<noteq> Running then None
          else Some (on_stdout s i out))"
| "step (StderrData i err) s =
     (case jobs s i of
        None \<Rightarrow> None
      | Some c \<Rightarrow>
          if proc c \<noteq> Running then None
          else Some (if fatal_stderr err then s\<lparr>crashed := True\<rparr> else s))"
| "step (Close i code) s =
     (case jobs s i of
        None \<Rightarrow> None
      | Some c \<Rightarrow>
          if proc c \<noteq> Running then None
          else Some (on_close s i (c\<lparr>proc := Exited code\<rparr>) code))"
| "step (ProcError i msg) s =
     (case jobs s i of
        None \<Rightarrow> None
      | Some c \<Rightarrow>
          (case phase c of
             Waiting rc rd t \<Rightarrow>
               Some (attempt_failed s i
                       (if t = Cleared then c\<lparr>stale := stale c + 1\<rparr> else c) rc rd msg)
           | _ \<Rightarrow> None))"
| "step (Timeout i) s =
     (case jobs s i of
        None \<Rightarrow> None
      | Some c \<Rightarrow>
          (case phase c of
             Waiting rc rd t \<Rightarrow>
               if t = Armed
               then Some (attempt_failed (s\<lparr>actions := actions s @ [Kill i]\<rparr>) i c rc rd ''Download timeout'')
               else None
           | _ \<Rightarrow> None))"
| "step (VerifyDone i actualQuality own) s =
     (case jobs s i of
        None \<Rightarrow> None
      | Some c \<Rightarrow>
          if own
          then (case phase c of
                  Waiting rc rd t \<Rightarrow>
                    if t = Cleared
                    then Some (s\<lparr>activeDownloads :=
                                    completed_write (activeDownloads s) i (job_quality c) actualQuality,
                                  jobs := (jobs s)(i \<mapsto> c\<lparr>phase := Settled\<rparr>),
                                  actions := actions s @ [Respond (Response 200 (StartedBody i))]\<rparr>)
                    else None
                | _ \<Rightarrow> None)
          else if stale c = 0 then None
          else Some (s\<lparr>activeDownloads :=
                          completed_write (activeDownloads s) i (job_quality c) actualQuality,
                        jobs := (jobs s)(i \<mapsto> c\<lparr>stale := stale c - 1\<rparr>)\<rparr>))"
| "step (SleepDone i) s =
     (case jobs s i of
        None \<Rightarrow> None
      | Some c \<Rightarrow>
          (case phase c of
             Sleeping rc rd \<Rightarrow>
               Some (s\<lparr>jobs := (jobs s)(i \<mapsto> c\<lparr>phase := Waiting rc (rd * 2) Armed,
                                                  attempts := attempts c + 1\<rparr>)\<rparr>)
           | _ \<Rightarrow> None))"
| "step (CheckFile i) s = (case checkFileHandler s i of (s', r) \<Rightarrow> Some (respond s' r))"
| "step (ServeFile i) s = (case serveFileHandler s i of (s', r) \<Rightarrow> Some (respond s' r))"
| "step (DeleteDownload i) s = (case deleteDownloadHandler s i of (s', r) \<Rightarrow> Some (respond s' r))"
| "step (GetFilePath i) s = Some (fst (getDownloadFilePath s i))"
| "step (StreamOpened p) s = (if p \<in> set (streams s) then Some (stream_opened s p) else None)"
| "step (External fs) s = Some (s\<lparr>disk := fs\<rparr>)"

text \<open>A sequence of events from a state; no event is taken after a crash.\<close>

fun run :: "event list \<Rightarrow> sys \<Rightarrow> sys option" where
  "run [] s = Some s"
| "run (e # es) s =
     (if crashed s then None
      else case step e s of None \<Rightarrow> None | Some s' \<Rightarrow> run es s')"

section \<open>Example states\<close>

definition rec_done :: DownloadProgress where
  "rec_done = \<lparr>videoId = ''abcdefghijk'', progress = 100, status = Completed, title = Some ''T'',
                message = None, filePath = Some ''/d/a.mp4''\<rparr>"

definition one_done :: "fsys \<Rightarrow> sys" where
  "one_done fs = (init ''/d'' fs)\<lparr>activeDownloads := [(''abcdefghijk_5'', rec_done)]\<rparr>"

definition rec_video :: "string \<Rightarrow> DownloadProgress" where
  "rec_video v = \<lparr>videoId = v, progress = 0, status = Error, title = None,
                   message = Some ''Download failed'', filePath = None\<rparr>"

definition two_videos :: sys where
  "two_videos = (init ''/d'' (\<lambda>_. None))
     \<lparr>activeDownloads := [(''video_1_7'', rec_video ''video_1''), (''video_2_8'', rec_video ''video_2'')]\<rparr>"

section \<open>Invariants of the server state\<close>

text \<open>A record is well-formed: \<open>completed\<close> comes with progress 100 and a file path.\<close>

definition rec_ok :: "DownloadProgress \<Rightarrow> bool" where
  "rec_ok d = (status d = Completed \<longrightarrow> progress d = 100 \<and> truthy (filePath d))"

text \<open>A \<open>close\<close> listener of the call has seen exit code 0 and has yet to write.\<close>

definition pending :: "ctl \<Rightarrow> bool" where
  "pending c = (stale c > 0 \<or> (\<exists>rc rd. phase c = Waiting rc rd Cleared))"

text \<open>How the control state of a call relates to the record of its job.\<close>

definition job_ok :: "ctl \<Rightarrow> DownloadProgress \<Rightarrow> bool" where
  "job_ok c d =
     ((phase c = GettingInfo \<longrightarrow> status d = Processing \<and> filePath d = None \<and> proc c = NotSpawned)
      \<and> (proc c \<noteq> NotSpawned \<longrightarrow> truthy (filePath d))
      \<and> (proc c = Running \<longrightarrow> status d \<noteq> Completed)
      \<and> (pending c \<longrightarrow> proc c = Exited (Some 0))
      \<and> (proc c \<noteq> Exited (Some 0) \<longrightarrow> progress d \<le> 99))"

definition inv_on :: "store \<Rightarrow> (string \<Rightarrow> ctl option) \<Rightarrow> bool" where
  "inv_on st js =
     (distinct (keys st)
      \<and> (\<forall>k d. map_get st k = Some d \<longrightarrow> rec_ok d)
      \<and> (\<forall>i c. js i = Some c \<longrightarrow> (\<exists>d. map_get st i = Some d \<and> job_ok c d)))"

definition sys_ok :: "sys \<Rightarrow> bool" where
  "sys_ok s = inv_on (activeDownloads s) (jobs s)"

text \<open>The events by which the call for job \<open>k\<close> can fail.\<close>

definition failure_event :: "event \<Rightarrow> string \<Rightarrow> bool" where
  "failure_event e k =
     ((\<exists>m ts. e = InfoDone k (Inl m) ts) \<or> (\<exists>code. e = Close k code \<and> code \<noteq> Some 0)
      \<or> e = Timeout k \<or> (\<exists>m. e = ProcError k m))"

text \<open>
  What one step \<open>e\<close> from state \<open>s\<close> can do to the record under key \<open>k\<close>: \<open>old\<close> is the
  record before (if any), \<open>d'\<close> the record after.
\<close>

definition effect :: "event \<Rightarrow> sys \<Rightarrow> string \<Rightarrow> DownloadProgress option \<Rightarrow> DownloadProgress \<Rightarrow> bool" where
  "effect e s k old d' =
     (old = Some d'
      \<or> (old = None \<and> (\<exists>vid. d' = new_record vid) \<and> (\<exists>u q pl t1 t2. e = Request u q pl t1 t2))
      \<or> (\<exists>d. old = Some d \<and>
            ((\<exists>out ts. e = InfoDone k (Inr out) ts) \<and> status d = Processing
                \<and> status d' = Downloading \<and> progress d' = progress d \<and> truthy (filePath d')
             \<or> failure_event e k \<and> status d' = Error \<and> progress d' = progress d
                \<and> filePath d' = filePath d
             \<or> (\<exists>out. e = StdoutData k out \<and>
                   progress d' = (case progressMatch out of None \<Rightarrow> progress d | Some p \<Rightarrow> min p 99))
                \<and> status d' = status d \<and> filePath d' = filePath d
             \<or> (\<exists>q own c. e = VerifyDone k q own \<and> jobs s k = Some c \<and> proc c = Exited (Some 0))
                \<and> status d' = Completed \<and> progress d' = 100 \<and> filePath d' = filePath d
             \<or> (\<exists>i. e = CheckFile i) \<and> status d = Completed \<and> status d' = Queued
                \<and> progress d' = 0 \<and> filePath d' = filePath d
             \<or> (\<exists>i. e = ServeFile i) \<and> truthy (filePath d) \<and> status d' = Queued
                \<and> progress d' = 0 \<and> filePath d' = filePath d
             \<or> (\<exists>i. e = GetFilePath i) \<and> status d' = status d \<and> progress d' = progress d
                \<and> truthy (filePath d'))))"

text \<open>Scripts of events for one job.\<close>

definition start_script :: "event list" where
  "start_script =
     [Request (Some ''https://youtu.be/abcdefghijk'') ''720p'' False 1 2,
      InfoDone ''abcdefghijk_2'' (Inr ''T'') 3]"

definition line45 :: string where
  "line45 = ''[download]  45.3% of 10MiB''"

definition happy_script :: "event list" where
  "happy_script = start_script @
     [StdoutData ''abcdefghijk_2'' line45,
      Close ''abcdefghijk_2'' (Some 0),
      VerifyDone ''abcdefghijk_2'' ''720p'' True]"

definition fail_prefix :: "event list" where
  "fail_prefix = start_script @
     [Close ''abcdefghijk_2'' (Some 1),
      SleepDone ''abcdefghijk_2'',
      Timeout ''abcdefghijk_2'',
      SleepDone ''abcdefghijk_2'']"

definition fail_script :: "event list" where
  "fail_script = fail_prefix @ [Timeout ''abcdefghijk_2'']"

definition info_fail_script :: "event list" where
  "info_fail_script =
     [Request (Some ''https://youtu.be/abcdefghijk'') ''720p'' False 1 2,
      InfoDone ''abcdefghijk_2'' (Inl ''Command failed'') 3]"

definition line20 :: string where
  "line20 = ''[download]  20.0% of 3MiB''"

definition request1 :: event where
  "request1 = Request (Some ''https://youtu.be/abcdefghijk'') ''720p'' False 1 2"

definition failed_with :: "sys \<Rightarrow> string \<Rightarrow> bool" where
  "failed_with s' i =
     (\<exists>d' m. map_get (activeDownloads s') i = Some d' \<and> status d' = Error \<and> message d' = Some m
        \<and> actions s' \<noteq> [] \<and> last (actions s') = Respond (Response 500 (ErrorBody m)))"

text \<open>
  The progress values of job \<open>i\<close> that successive chunks of output store, up to the chunk
  at which the listener throws (if any): one value for each chunk in which a percentage is
  found.
\<close>

fun stored_progress :: "sys \<Rightarrow> string \<Rightarrow> string list \<Rightarrow> rat list" where
  "stored_progress s i [] = []"
| "stored_progress s i (out # outs) =
     (if crashed (on_stdout s i out) then []
      else (case progressMatch out of
              None \<Rightarrow> []
            | Some p \<Rightarrow> (case map_get (activeDownloads (on_stdout s i out)) i of
                          None \<Rightarrow> [] | Some d \<Rightarrow> [progress d]))
           @ stored_progress (on_stdout s i out) i outs)"

definition downloading_store :: store where
  "downloading_store =
     [(''abcdefghijk_2'', \<lparr>videoId = ''abcdefghijk'', progress = 0, status = Downloading,
         title = Some ''T'', message = Some ''Download in progress'',
         filePath = Some ''/d/T_abcdefghijk_3.mp4''\<rparr>)]"

text \<open>Further example inputs: a line with a percentage above 100, and a disk that holds the
  download directory and nothing else.\<close>

definition line102 :: string where
  "line102 = ''[download] 102.0% of 1MiB''"

definition downloading_sys :: sys where
  "downloading_sys = (init ''/d'' (\<lambda>_. None))\<lparr>activeDownloads := downloading_store\<rparr>"

definition dir_only :: fsys where
  "dir_only = (\<lambda>p. if p = ''/d'' then Some Dir else None)"

definition timeout_prefix :: "event list" where
  "timeout_prefix = start_script @
     [Timeout ''abcdefghijk_2'',
      SleepDone ''abcdefghijk_2'',
      Timeout ''abcdefghijk_2'',
      SleepDone ''abcdefghijk_2'']"

text \<open>
  The step from \<open>s\<close> to \<open>s'\<close> has recorded the failure of job \<open>i\<close> with message \<open>m\<close>
  and answered the download request: the record has status \<open>error\<close> and the message, and
  the step has added the answer with status 500 and the same message (after the \<open>kill\<close>,
  when the failure is a timeout).
\<close>

definition recorded_and_answered :: "sys \<Rightarrow> sys \<Rightarrow> string \<Rightarrow> string \<Rightarrow> bool" where
  "recorded_and_answered s s' i m =
     (map_option status (map_get (activeDownloads s') i) = Some Error
      \<and> map_option message (map_get (activeDownloads s') i) = Some (Some m)
      \<and> (actions s' = actions s @ [Respond (Response 500 (ErrorBody m))]
         \<or> actions s' = actions s @ [Kill i, Respond (Response 500 (ErrorBody m))]))"

section \<open>Reusing an existing job: the words of the specification\<close>

text \<open>
  A stored job is for the video when its \<open>videoId\<close> is the video id or its key starts
  with the video id and the separator; it is done when it is \<open>completed\<close> with progress
  100 and a file path; it is in flight when it is \<open>downloading\<close> or \<open>processing\<close>.
  \<open>reused s r k\<close>: the result \<open>r\<close> of the call leaves the map and the calls in flight as
  in \<open>s\<close> and the request is answered with the job id \<open>k\<close>.
\<close>

definition same_video :: "string \<Rightarrow> string \<times> DownloadProgress \<Rightarrow> bool" where
  "same_video vid e = (videoId (snd e) = vid \<or> prefix (vid @ ''_'') (fst e))"

definition is_done :: "string \<times> DownloadProgress \<Rightarrow> bool" where
  "is_done e = (status (snd e) = Completed \<and> progress (snd e) = 100 \<and> truthy (filePath (snd e)))"

definition in_flight :: "string \<times> DownloadProgress \<Rightarrow> bool" where
  "in_flight e = (status (snd e) = Downloading \<or> status (snd e) = Processing)"

definition reused :: "sys \<Rightarrow> sys option \<Rightarrow> string \<Rightarrow> bool" where
  "reused s r k =
     (\<exists>s'. r = Some s' \<and> activeDownloads s' = activeDownloads s \<and> jobs s' = jobs s
        \<and> actions s' = actions s @ [Respond (Response 200 (StartedBody k))])"

definition two_jobs :: sys where
  "two_jobs = (init ''/d'' (\<lambda>_. None))
     \<lparr>activeDownloads :=
        [(''abcdefghijk_2'', \<lparr>videoId = ''abcdefghijk'', progress = 40, status = Downloading,
            title = Some ''T'', message = None, filePath = Some ''/d/T_abcdefghijk_3.mp4''\<rparr>),
         (''abcdefghijk_5'', rec_done)]\<rparr>"

section \<open>Properties of the job store\<close>

lemma startsWith_prefix: "startsWith s p = prefix p s"
  by (induction s p rule: startsWith.induct) auto

lemma map_get_map_of: "map_get st k = map_of st k"
  by (induction st) auto

lemma map_get_None_iff: "map_get st k = None \<longleftrightarrow> k \<notin> set (keys st)"
  by (simp add: map_get_map_of map_of_eq_None_iff keys_def)

lemma prefix_loop_find: "prefix_loop st i = find (\<lambda>e. prefix (i @ ''_'') (fst e)) st"
  by (induction st) (auto simp: startsWith_prefix)

lemma videoId_loop_find: "videoId_loop st i = find (\<lambda>e. videoId (snd e) = i) st"
  by (induction st) auto

lemma find_None_set: "find P xs = None \<longleftrightarrow> \<not> (\<exists>x \<in> set xs. P x)"
  by (induction xs) auto

text \<open>
  C5: for every lookup id the job-store lookup tries the exact key, then the first key
  that starts with the id followed by \<open>_\<close>, then the first record whose \<open>videoId\<close> is the
  id, and returns the first match; when no mode matches the result is \<open>None\<close> (the
  function is total and returns \<open>undefined\<close>).
\<close>

theorem getDownloadProgress_resolution_order:
  "getDownloadProgress st i = lookup_spec st i"
proof (cases "map_get st i")
  case None
  then have notin: "i \<notin> set (keys st)"
    by (simp add: map_get_None_iff)
  show ?thesis
  proof (cases "prefix_loop st i")
    case None': None
    then have "\<not> (\<exists>e \<in> set st. prefix (i @ ''_'') (fst e))"
      by (simp add: prefix_loop_find find_None_set)
    with None None' notin show ?thesis
      by (simp add: getDownloadProgress_def lookup_entry_def lookup_spec_def videoId_loop_find)
  next
    case (Some e)
    then have "\<exists>e \<in> set st. prefix (i @ ''_'') (fst e)"
      using find_None_set [of "\<lambda>e. prefix (i @ ''_'') (fst e)" st]
      by (simp add: prefix_loop_find)
    with None Some notin show ?thesis
      by (simp add: getDownloadProgress_def lookup_entry_def lookup_spec_def prefix_loop_find)
  qed
next
  case (Some d)
  then have "i \<in> set (keys st)"
    using map_get_None_iff [of st i] by simp
  with Some show ?thesis
    by (simp add: getDownloadProgress_def lookup_entry_def lookup_spec_def map_get_map_of)
qed

theorem getDownloadProgress_resolution_order_witness:
  "lookup_spec
     [(''abc_1'', \<lparr>videoId = ''abc'', progress = 0, status = Processing, title = None,
                   message = None, filePath = None\<rparr>),
      (''abc_2'', \<lparr>videoId = ''abc'', progress = 5, status = Downloading, title = None,
                   message = None, filePath = None\<rparr>)] ''abc''
   = Some \<lparr>videoId = ''abc'', progress = 0, status = Processing, title = None,
            message = None, filePath = None\<rparr>"
  using getDownloadProgress_resolution_order
    [of "[(''abc_1'', \<lparr>videoId = ''abc'', progress = 0, status = Processing, title = None,
                   message = None, filePath = None\<rparr>),
      (''abc_2'', \<lparr>videoId = ''abc'', progress = 5, status = Downloading, title = None,
                   message = None, filePath = None\<rparr>)]" "''abc''"]
  by (simp add: getDownloadProgress_def lookup_entry_def)

section \<open>Deleting a download\<close>

lemma split_on_nonempty: "split_on sep s \<noteq> []"
  by (induction s) (auto split: list.splits)

lemma baseVideoId_takeWhile: "baseVideoId i = takeWhile (\<lambda>c. c \<noteq> CHR ''_'') i"
  by (induction i) (auto simp: baseVideoId_def split_on_nonempty split: list.splits)

text \<open>The handler never writes to the map of jobs, whatever the id.\<close>

lemma deleteDownloadHandler_store:
  "activeDownloads (fst (deleteDownloadHandler s i)) = activeDownloads s"
  by (simp add: deleteDownloadHandler_def Let_def split: list.splits option.splits)

text \<open>
  C2 (the code departs from the claim): the map holds one completed job
  \<open>abcdefghijk_5\<close> whose file \<open>/d/a.mp4\<close> is on disk. \<open>DELETE /api/download/abcdefghijk_5\<close>
  answers that the download was deleted and removes the file, but a lookup of the same id
  still finds the record: the filtered list was assigned to \<open>global.downloads\<close>, not to
  the map that the lookups read.
\<close>

theorem delete_keeps_records:
  "snd (deleteDownloadHandler (one_done [''/d/a.mp4'' \<mapsto> File]) ''abcdefghijk_5'')
     = Response 200 (MessageBody ''Download deleted successfully'')
   \<and> getDownloadProgress
       (activeDownloads (fst (deleteDownloadHandler (one_done [''/d/a.mp4'' \<mapsto> File]) ''abcdefghijk_5'')))
       ''abcdefghijk_5'' = Some rec_done
   \<and> disk (fst (deleteDownloadHandler (one_done [''/d/a.mp4'' \<mapsto> File]) ''abcdefghijk_5''))
       ''/d/a.mp4'' = None"
  by (simp add: deleteDownloadHandler_def matchingDownloads_def baseVideoId_def getAllDownloads_def
      rec_done_def one_done_def init_def existsSync_def isDirectory_def unlinkSync_def
      getDownloadProgress_def lookup_entry_def Let_def)

text \<open>
  C10, as amended: given a delete request for an id, the handler selects every record whose
  \<open>videoId\<close> starts with the part of the id before the first underscore; so a request
  whose id starts with \<open>video_\<close> selects every record whose \<open>videoId\<close> has the form
  \<open>video_<timestamp>\<close>.
\<close>

theorem delete_selects_by_prefix:
  "set (matchingDownloads st i)
     = {d \<in> set (getAllDownloads st). prefix (takeWhile (\<lambda>c. c \<noteq> CHR ''_'') i) (videoId d)}
   \<and> ((k, d) \<in> set st \<and> videoId d = ''video_'' @ ts
        \<longrightarrow> d \<in> set (matchingDownloads st (''video_'' @ rest)))"
proof -
  have sel: "set (matchingDownloads st i)
     = {d \<in> set (getAllDownloads st). prefix (takeWhile (\<lambda>c. c \<noteq> CHR ''_'') i) (videoId d)}"
    by (auto simp: matchingDownloads_def startsWith_prefix baseVideoId_takeWhile)
  have "d \<in> set (matchingDownloads st (''video_'' @ rest))"
    if "(k, d) \<in> set st" "videoId d = ''video_'' @ ts"
  proof -
    from that(1) have "d \<in> set (getAllDownloads st)"
      by (force simp: getAllDownloads_def)
    moreover from that(2) have "startsWith (videoId d) ''video''"
      by simp
    ultimately show ?thesis
      by (simp add: matchingDownloads_def baseVideoId_takeWhile)
  qed
  with sel show ?thesis by blast
qed

theorem delete_selects_by_prefix_witness:
  "rec_video ''video_2'' \<in> set (matchingDownloads (activeDownloads two_videos) ''video_1_7'')"
proof -
  have "(''video_2_8'', rec_video ''video_2'') \<in> set (activeDownloads two_videos)
        \<and> videoId (rec_video ''video_2'') = ''video_'' @ ''2''"
    by (simp add: two_videos_def rec_video_def init_def)
  moreover have "(''video_2_8'', rec_video ''video_2'') \<in> set (activeDownloads two_videos)
        \<and> videoId (rec_video ''video_2'') = ''video_'' @ ''2''
      \<longrightarrow> rec_video ''video_2'' \<in> set (matchingDownloads (activeDownloads two_videos) (''video_'' @ ''1_7''))"
    using delete_selects_by_prefix
      [of "activeDownloads two_videos" "''video_1_7''" "''video_2_8''" "rec_video ''video_2''" "''2''" "''1_7''"]
    by (rule conjunct2)
  ultimately show ?thesis by simp
qed

text \<open>
  C10 as stated fails: with the jobs \<open>video_1_7\<close> and \<open>video_2_8\<close> in the map, a delete
  aimed at \<open>video_1_7\<close> selects the record of the other job and answers with success, and
  the other job is still in the map afterwards.
\<close>

theorem delete_prefix_counterexample:
  "rec_video ''video_2'' \<in> set (matchingDownloads (activeDownloads two_videos) ''video_1_7'')
   \<and> snd (deleteDownloadHandler two_videos ''video_1_7'')
       = Response 200 (MessageBody ''Download deleted successfully'')
   \<and> getDownloadProgress (activeDownloads (fst (deleteDownloadHandler two_videos ''video_1_7'')))
       ''video_2_8'' = Some (rec_video ''video_2'')"
  by (simp add: deleteDownloadHandler_def matchingDownloads_def baseVideoId_def getAllDownloads_def
      two_videos_def rec_video_def init_def getDownloadProgress_def lookup_entry_def Let_def)

section \<open>The map of jobs\<close>

lemma map_get_map_set: "map_get (map_set st k v) k' = (if k' = k then Some v else map_get st k')"
  by (induction st) auto

lemma keys_map_set_list:
  "keys (map_set st k v) = (if k \<in> set (keys st) then keys st else keys st @ [k])"
  by (induction st k v rule: map_set.induct) (simp_all add: keys_def)

lemma keys_map_set: "set (keys (map_set st k v)) = insert k (set (keys st))"
  by (auto simp: keys_map_set_list)

lemma keys_map_set_present: "k \<in> set (keys st) \<Longrightarrow> keys (map_set st k v) = keys st"
  by (simp add: keys_map_set_list)

lemma map_set_fresh: "k \<notin> set (keys st) \<Longrightarrow> map_set st k v = st @ [(k, v)]"
  by (induction st k v rule: map_set.induct) (auto simp: keys_def)

lemma distinct_map_set: "distinct (keys st) \<Longrightarrow> distinct (keys (map_set st k v))"
  by (simp add: keys_map_set_list)

lemma map_get_update:
  "map_get (update st k f) k' = (if k' = k then map_option f (map_get st k) else map_get st k')"
  by (auto simp: update_def map_get_map_set split: option.splits)

lemma keys_update: "keys (update st k f) = keys st"
proof (cases "map_get st k")
  case None
  then show ?thesis by (simp add: update_def)
next
  case (Some d)
  then have "k \<in> set (keys st)"
    using map_get_None_iff [of st k] by simp
  with Some show ?thesis
    by (simp add: update_def keys_map_set_present)
qed

lemma update_update: "update (update st k f) k g = update st k (g \<circ> f)"
proof (cases "map_get st k")
  case None
  then show ?thesis by (simp add: update_def)
next
  case (Some d)
  have "map_set (map_set st k a) k b = map_set st k b" for a b
    by (induction st) auto
  with Some show ?thesis
    by (simp add: update_def map_get_map_set)
qed

lemma map_get_in_set: "distinct (keys st) \<Longrightarrow> (map_get st k = Some d) = ((k, d) \<in> set st)"
  by (simp add: map_get_map_of keys_def)

lemma prefix_loop_in_set: "prefix_loop st i = Some e \<Longrightarrow> e \<in> set st"
  by (induction st) (auto split: if_splits)

lemma videoId_loop_in_set: "videoId_loop st i = Some e \<Longrightarrow> e \<in> set st"
  by (induction st) (auto split: if_splits)

lemma lookup_entry_map_get:
  assumes "distinct (keys st)" and "lookup_entry st i = Some (k, d)"
  shows "map_get st k = Some d"
proof -
  from assms(2) have "map_get st k = Some d \<or> (k, d) \<in> set st"
    by (auto simp: lookup_entry_def split: option.splits
        dest: prefix_loop_in_set videoId_loop_in_set)
  with assms(1) show ?thesis
    by (auto simp: map_get_in_set)
qed

lemma inv_on_update:
  assumes "inv_on st js" and "map_get st i = Some d" and "rec_ok (f d)"
    and "\<And>c. js' i = Some c \<Longrightarrow> job_ok c (f d)"
    and "\<And>j. j \<noteq> i \<Longrightarrow> js' j = js j"
  shows "inv_on (update st i f) js'"
  using assms
  unfolding inv_on_def
  by (auto simp: map_get_update keys_update)

lemma inv_on_create:
  assumes "inv_on st js" and "k \<notin> set (keys st)" and "rec_ok v" and "job_ok c v"
  shows "inv_on (map_set st k v) (js(k \<mapsto> c))"
  using assms
  unfolding inv_on_def
  by (auto simp: map_get_map_set distinct_map_set map_get_None_iff [symmetric])


lemma inv_on_change:
  assumes "inv_on st js"
    and "\<And>d. map_get st i = Some d \<Longrightarrow> rec_ok d \<Longrightarrow> rec_ok (f d)"
    and "\<And>d c'. map_get st i = Some d \<Longrightarrow> rec_ok d \<Longrightarrow> js' i = Some c'
            \<Longrightarrow> (\<forall>c. js i = Some c \<longrightarrow> job_ok c d) \<Longrightarrow> js i \<noteq> None \<and> job_ok c' (f d)"
    and "js i = None \<Longrightarrow> js' i = None"
    and "\<And>j. j \<noteq> i \<Longrightarrow> js' j = js j"
  shows "inv_on (update st i f) js'"
  unfolding inv_on_def
proof (intro conjI allI impI)
  show "distinct (keys (update st i f))"
    using assms(1) by (simp add: inv_on_def keys_update)
next
  fix k d
  assume "map_get (update st i f) k = Some d"
  then show "rec_ok d"
    using assms(1,2) by (auto simp: inv_on_def map_get_update split: if_splits)
next
  fix j c
  assume j: "js' j = Some c"
  show "\<exists>d. map_get (update st i f) j = Some d \<and> job_ok c d"
  proof (cases "j = i")
    case False
    with j assms(1,5) show ?thesis
      by (auto simp: inv_on_def map_get_update)
  next
    case True
    with j assms(4) obtain c0 where c0: "js i = Some c0"
      by (cases "js i") auto
    with assms(1) obtain d where d: "map_get st i = Some d" "job_ok c0 d"
      unfolding inv_on_def by blast
    with assms(1) have r: "rec_ok d"
      unfolding inv_on_def by blast
    have "\<forall>c. js i = Some c \<longrightarrow> job_ok c d"
      using c0 d by simp
    with assms(3) [of d c] d r j True have "job_ok c (f d)"
      by simp
    with d True show ?thesis
      by (simp add: map_get_update)
  qed
qed

lemma update_id: "update st k (\<lambda>d. d) = st"
proof (cases "map_get st k")
  case None
  then show ?thesis by (simp add: update_def)
next
  case (Some d)
  have "map_get st k = Some d \<Longrightarrow> map_set st k d = st"
    by (induction st) (auto split: if_splits)
  with Some show ?thesis by (simp add: update_def)
qed

section \<open>Reading a completed job whose file is missing\<close>

text \<open>
  C4 as stated fails: the map holds the completed job \<open>abcdefghijk_5\<close> with file path
  \<open>/d/a.mp4\<close>, and the disk holds the download directory only. A read through the status
  endpoint, through the progress endpoint or through \<open>getDownloadFilePath\<close> returns the
  job as \<open>completed\<close> and leaves the record as it is, \<open>completed\<close> with progress 100.
\<close>

theorem read_without_repair_counterexample:
  "status rec_done = Completed \<and> filePath rec_done = Some ''/d/a.mp4''
   \<and> \<not> existsSync (disk (one_done dir_only)) ''/d/a.mp4''
   \<and> snd (statusHandler (one_done dir_only) ''abcdefghijk_5'')
       = Response 200 (StatusBody Completed 100 None (Some ''T''))
   \<and> activeDownloads (fst (statusHandler (one_done dir_only) ''abcdefghijk_5''))
       = [(''abcdefghijk_5'', rec_done)]
   \<and> snd (progressHandler (one_done dir_only) ''abcdefghijk_5'') = Response 200 (RecordBody rec_done)
   \<and> activeDownloads (fst (progressHandler (one_done dir_only) ''abcdefghijk_5''))
       = [(''abcdefghijk_5'', rec_done)]
   \<and> snd (getDownloadFilePath (one_done dir_only) ''abcdefghijk_5'') = Some ''/d/a.mp4''
   \<and> activeDownloads (fst (getDownloadFilePath (one_done dir_only) ''abcdefghijk_5''))
       = [(''abcdefghijk_5'', rec_done)]"
  by (simp add: statusHandler_def progressHandler_def getDownloadFilePath_def
      createDummyVideoFile_def getDownloadProgress_def lookup_entry_def rec_done_def one_done_def
      init_def existsSync_def dir_only_def)

text \<open>
  C4, as amended: for every read through the check endpoint or the serve endpoint of a job
  (the one that the lookup of the id finds) whose status is \<open>completed\<close> and whose file
  path is set and not on the disk, the endpoint sets the status of the record to
  \<open>queued\<close> and its progress to 0 and changes nothing else in the state of the server: it
  creates no file and no write stream. The check endpoint answers with \<open>exists: false\<close>,
  the serve endpoint with status 404.
\<close>

theorem check_and_serve_read_repair:
  assumes "lookup_entry (activeDownloads s) i = Some (k, d)" and "i \<noteq> []"
    and "status d = Completed" and "filePath d = Some p" and "p \<noteq> []"
    and "\<not> existsSync (disk s) p"
  shows "checkFileHandler s i =
           (s\<lparr>activeDownloads := map_set (activeDownloads s) k (d\<lparr>status := Queued, progress := 0\<rparr>)\<rparr>,
            Response 200 (CheckBody False (Some ''File needs to be re-downloaded'')))
       \<and> serveFileHandler s i =
           (s\<lparr>activeDownloads := map_set (activeDownloads s) k (d\<lparr>status := Queued, progress := 0\<rparr>)\<rparr>,
            Response 404 RedownloadBody)
       \<and> map_get (map_set (activeDownloads s) k (d\<lparr>status := Queued, progress := 0\<rparr>)) k
           = Some (d\<lparr>status := Queued, progress := 0\<rparr>)
       \<and> disk (fst (checkFileHandler s i)) = disk s \<and> streams (fst (checkFileHandler s i)) = streams s
       \<and> disk (fst (serveFileHandler s i)) = disk s \<and> streams (fst (serveFileHandler s i)) = streams s"
  using assms
  by (simp add: checkFileHandler_def serveFileHandler_def mark_for_redownload_def map_get_map_set)

theorem check_and_serve_read_repair_witness:
  "snd (checkFileHandler (one_done dir_only) ''abcdefghijk_5'')
     = Response 200 (CheckBody False (Some ''File needs to be re-downloaded''))
   \<and> activeDownloads (fst (checkFileHandler (one_done dir_only) ''abcdefghijk_5''))
       = [(''abcdefghijk_5'', rec_done\<lparr>status := Queued, progress := 0\<rparr>)]
   \<and> disk (fst (checkFileHandler (one_done dir_only) ''abcdefghijk_5'')) ''/d/a.mp4'' = None
   \<and> snd (serveFileHandler (one_done dir_only) ''abcdefghijk_5'') = Response 404 RedownloadBody"
proof -
  have "lookup_entry (activeDownloads (one_done dir_only)) ''abcdefghijk_5'' = Some (''abcdefghijk_5'', rec_done)"
    "''abcdefghijk_5'' \<noteq> []" "status rec_done = Completed" "filePath rec_done = Some ''/d/a.mp4''"
    "''/d/a.mp4'' \<noteq> []" "\<not> existsSync (disk (one_done dir_only)) ''/d/a.mp4''"
    by (simp_all add: lookup_entry_def rec_done_def one_done_def init_def existsSync_def dir_only_def)
  from check_and_serve_read_repair [OF this] show ?thesis
    by (simp add: one_done_def init_def dir_only_def)
qed

section \<open>The effect of one step on a record\<close>

lemma inv_init: "sys_ok (init dir fs)"
  by (simp add: sys_ok_def inv_on_def init_def keys_def)

lemma rec_ok_new: "rec_ok (new_record vid)"
  by (simp add: rec_ok_def new_record_def)

lemma job_ok_new: "job_ok (new_ctl vid q) (new_record vid)"
  by (simp add: job_ok_def new_ctl_def new_record_def pending_def)

lemma step_Request_shape:
  assumes "step (Request url q pl t1 t2) s = Some s'"
  shows "(activeDownloads s' = activeDownloads s \<and> jobs s' = jobs s
          \<and> (\<exists>r. actions s' = actions s @ [Respond r]))
     \<or> (\<exists>u. url = Some u \<and> u \<noteq> []
           \<and> new_downloadId pl (extractVideoId u t1) t2 \<notin> set (keys (activeDownloads s))
           \<and> activeDownloads s' = map_set (activeDownloads s)
                (new_downloadId pl (extractVideoId u t1) t2) (new_record (extractVideoId u t1))
           \<and> jobs s' = (jobs s)(new_downloadId pl (extractVideoId u t1) t2 \<mapsto>
                                   new_ctl (extractVideoId u t1) q)
           \<and> actions s' = actions s)"
  using assms
  by (auto simp: downloadHandler_def downloadFromUrl_start_def respond_def Let_def
      split: option.splits if_splits prod.splits)

lemma inv_Request:
  assumes "sys_ok s" and "step (Request url q pl t1 t2) s = Some s'"
  shows "sys_ok s'"
  using step_Request_shape [OF assms(2)] assms(1)
  by (auto simp: sys_ok_def inv_on_create [OF _ _ rec_ok_new job_ok_new])


lemma effect_same: "effect e s k (Some d) d"
  by (simp add: effect_def)

lemma effect_Request:
  assumes "step (Request url q pl t1 t2) s = Some s'" and "sys_ok s"
    and "map_get (activeDownloads s') k = Some d'"
  shows "effect (Request url q pl t1 t2) s k (map_get (activeDownloads s) k) d'"
  using step_Request_shape [OF assms(1)] assms(3)
  by (auto simp: effect_def map_get_map_set map_get_None_iff split: if_splits)

lemma effect_InfoDone:
  assumes "step (InfoDone i r ts) s = Some s'" and "sys_ok s"
    and "map_get (activeDownloads s') k = Some d'"
  shows "effect (InfoDone i r ts) s k (map_get (activeDownloads s) k) d'"
proof -
  from assms(1) obtain c where c: "jobs s i = Some c" "phase c = GettingInfo"
    by (auto split: option.splits if_splits)
  with assms(2) obtain d where d: "map_get (activeDownloads s) i = Some d" "job_ok c d"
    unfolding sys_ok_def inv_on_def by blast
  with c have p: "status d = Processing"
    by (simp add: job_ok_def)
  show ?thesis
  proof (cases r)
    case (Inl m)
    with assms(1) c have "s' = download_failed s i c m" by simp
    with assms(3) d Inl show ?thesis
      by (auto simp: effect_def download_failed_def mark_error_def map_get_update failure_event_def split: if_splits)
  next
    case (Inr out)
    with assms(1) c have "s' = info_resolved s i c out ts" by simp
    with assms(3) d p Inr show ?thesis
      by (auto simp: effect_def info_resolved_def set_title_def set_downloading_def map_get_update Let_def path_join_def split: if_splits)
  qed
qed


lemma effect_StdoutData:
  assumes "step (StdoutData i out) s = Some s'"
    and "map_get (activeDownloads s') k = Some d'"
  shows "effect (StdoutData i out) s k (map_get (activeDownloads s) k) d'"
proof (cases "bar_overflow out")
  case True
  with assms(1) have "activeDownloads s' = activeDownloads s"
    by (auto simp: on_stdout_def split: option.splits if_splits)
  with assms(2) show ?thesis by (simp add: effect_def)
next
  case False
  with assms(1) have "activeDownloads s' = stdout_writes (activeDownloads s) i out"
    by (auto simp: on_stdout_def split: option.splits if_splits)
  with assms(2) show ?thesis
    by (auto simp: effect_def stdout_writes_def set_progress_def set_merging_def map_get_update Let_def split: if_splits option.splits)
qed

lemma effect_StderrData:
  assumes "step (StderrData i err) s = Some s'"
    and "map_get (activeDownloads s') k = Some d'"
  shows "effect (StderrData i err) s k (map_get (activeDownloads s) k) d'"
  using assms by (auto simp: effect_def split: option.splits if_splits)

lemma attempt_failed_store:
  assumes "map_get (activeDownloads (attempt_failed s i c rc rd m)) k = Some d'"
  shows "map_get (activeDownloads s) k = Some d'
         \<or> (k = i \<and> (\<exists>d. map_get (activeDownloads s) k = Some d \<and> status d' = Error
                \<and> progress d' = progress d \<and> filePath d' = filePath d))"
  using assms
  by (auto simp: attempt_failed_def download_failed_def mark_error_def map_get_update split: if_splits)

lemma effect_Close:
  assumes "step (Close i code) s = Some s'"
    and "map_get (activeDownloads s') k = Some d'"
  shows "effect (Close i code) s k (map_get (activeDownloads s) k) d'"
proof -
  from assms(1) obtain c where c: "jobs s i = Some c"
    and s': "s' = on_close s i (c\<lparr>proc := Exited code\<rparr>) code"
    by (auto split: option.splits if_splits)
  show ?thesis
  proof (cases "code = Some 0")
    case True
    with s' assms(2) show ?thesis
      by (auto simp: effect_def on_close_def split: phase.splits)
  next
    case False
    with s' assms(2) have
      "map_get (activeDownloads s) k = Some d'
       \<or> (\<exists>rc rd m. map_get (activeDownloads (attempt_failed s i (c\<lparr>proc := Exited code\<rparr>) rc rd m)) k = Some d')"
      by (auto simp: on_close_def split: phase.splits)
    with False show ?thesis
      by (auto simp: effect_def failure_event_def dest!: attempt_failed_store)
  qed
qed

lemma effect_ProcError:
  assumes "step (ProcError i m) s = Some s'"
    and "map_get (activeDownloads s') k = Some d'"
  shows "effect (ProcError i m) s k (map_get (activeDownloads s) k) d'"
proof -
  from assms have "\<exists>c rc rd. map_get (activeDownloads (attempt_failed s i c rc rd m)) k = Some d'"
    by (auto split: option.splits phase.splits)
  then show ?thesis
    by (auto simp: effect_def failure_event_def dest!: attempt_failed_store)
qed

lemma effect_Timeout:
  assumes "step (Timeout i) s = Some s'"
    and "map_get (activeDownloads s') k = Some d'"
  shows "effect (Timeout i) s k (map_get (activeDownloads s) k) d'"
proof -
  from assms have "\<exists>c rc rd m. map_get (activeDownloads
       (attempt_failed (s\<lparr>actions := actions s @ [Kill i]\<rparr>) i c rc rd m)) k = Some d'"
    by (auto split: option.splits phase.splits if_splits)
  then show ?thesis
    by (auto simp: effect_def failure_event_def dest!: attempt_failed_store)
qed

lemma effect_VerifyDone:
  assumes "step (VerifyDone i q own) s = Some s'" and "sys_ok s"
    and "map_get (activeDownloads s') k = Some d'"
  shows "effect (VerifyDone i q own) s k (map_get (activeDownloads s) k) d'"
proof -
  from assms(1) obtain c where c: "jobs s i = Some c" "pending c"
    and st: "activeDownloads s' = completed_write (activeDownloads s) i (job_quality c) q"
    by (auto simp: pending_def split: option.splits phase.splits if_splits)
  with assms(2) have "proc c = Exited (Some 0)"
    unfolding sys_ok_def inv_on_def job_ok_def by blast
  with c st assms(3) show ?thesis
    by (auto simp: effect_def completed_write_def mark_completed_def map_get_update split: if_splits)
qed

lemma effect_SleepDone:
  assumes "step (SleepDone i) s = Some s'"
    and "map_get (activeDownloads s') k = Some d'"
  shows "effect (SleepDone i) s k (map_get (activeDownloads s) k) d'"
  using assms by (auto simp: effect_def split: option.splits phase.splits)

lemma effect_CheckFile:
  assumes "step (CheckFile i) s = Some s'" and "sys_ok s"
    and "map_get (activeDownloads s') k = Some d'"
  shows "effect (CheckFile i) s k (map_get (activeDownloads s) k) d'"
proof -
  have dist: "distinct (keys (activeDownloads s))"
    using assms(2) by (simp add: sys_ok_def inv_on_def)
  from assms(1) have
    "activeDownloads s' = activeDownloads s
     \<or> (\<exists>k0 d0. lookup_entry (activeDownloads s) i = Some (k0, d0) \<and> status d0 = Completed
           \<and> activeDownloads s' = map_set (activeDownloads s) k0 (mark_for_redownload d0))"
    by (auto simp: checkFileHandler_def respond_def split: option.splits if_splits prod.splits)
  then show ?thesis
  proof (elim disjE exE conjE)
    assume "activeDownloads s' = activeDownloads s"
    with assms(3) show ?thesis by (simp add: effect_def)
  next
    fix k0 d0
    assume l: "lookup_entry (activeDownloads s) i = Some (k0, d0)" and c: "status d0 = Completed"
      and st: "activeDownloads s' = map_set (activeDownloads s) k0 (mark_for_redownload d0)"
    from l have "map_get (activeDownloads s) k0 = Some d0"
      by (rule lookup_entry_map_get [OF dist])
    with c st assms(3) show ?thesis
      by (auto simp: effect_def map_get_map_set mark_for_redownload_def split: if_splits)
  qed
qed

lemma effect_ServeFile:
  assumes "step (ServeFile i) s = Some s'" and "sys_ok s"
    and "map_get (activeDownloads s') k = Some d'"
  shows "effect (ServeFile i) s k (map_get (activeDownloads s) k) d'"
proof -
  have dist: "distinct (keys (activeDownloads s))"
    using assms(2) by (simp add: sys_ok_def inv_on_def)
  from assms(1) have
    "activeDownloads s' = activeDownloads s
     \<or> (\<exists>k0 d0. lookup_entry (activeDownloads s) i = Some (k0, d0) \<and> truthy (filePath d0)
           \<and> activeDownloads s' = map_set (activeDownloads s) k0 (mark_for_redownload d0))"
    by (auto simp: serveFileHandler_def respond_def split: option.splits if_splits prod.splits)
  then show ?thesis
  proof (elim disjE exE conjE)
    assume "activeDownloads s' = activeDownloads s"
    with assms(3) show ?thesis by (simp add: effect_def)
  next
    fix k0 d0
    assume l: "lookup_entry (activeDownloads s) i = Some (k0, d0)" and c: "truthy (filePath d0)"
      and st: "activeDownloads s' = map_set (activeDownloads s) k0 (mark_for_redownload d0)"
    from l have "map_get (activeDownloads s) k0 = Some d0"
      by (rule lookup_entry_map_get [OF dist])
    with c st assms(3) show ?thesis
      by (auto simp: effect_def map_get_map_set mark_for_redownload_def split: if_splits)
  qed
qed

lemma effect_DeleteDownload:
  assumes "step (DeleteDownload i) s = Some s'"
    and "map_get (activeDownloads s') k = Some d'"
  shows "effect (DeleteDownload i) s k (map_get (activeDownloads s) k) d'"
proof -
  from assms(1) have "activeDownloads s' = activeDownloads s"
    using deleteDownloadHandler_store [of s i]
    by (auto simp: respond_def split: prod.splits)
  with assms(2) show ?thesis by (simp add: effect_def)
qed

lemma effect_GetFilePath:
  assumes "step (GetFilePath i) s = Some s'"
    and "map_get (activeDownloads s') k = Some d'"
  shows "effect (GetFilePath i) s k (map_get (activeDownloads s) k) d'"
  using assms
  by (auto simp: effect_def getDownloadFilePath_def createDummyVideoFile_def map_get_map_set
      Let_def path_join_def split: option.splits if_splits)

lemma effect_StreamOpened:
  assumes "step (StreamOpened p) s = Some s'"
    and "map_get (activeDownloads s') k = Some d'"
  shows "effect (StreamOpened p) s k (map_get (activeDownloads s) k) d'"
  using assms by (auto simp: effect_def stream_opened_def split: if_splits)

lemma effect_External:
  assumes "step (External fs) s = Some s'"
    and "map_get (activeDownloads s') k = Some d'"
  shows "effect (External fs) s k (map_get (activeDownloads s) k) d'"
  using assms by (auto simp: effect_def)

lemma step_effect:
  assumes "step e s = Some s'" and "sys_ok s" and "map_get (activeDownloads s') k = Some d'"
  shows "effect e s k (map_get (activeDownloads s) k) d'"
  using assms
  by (cases e)
    (simp_all only: effect_Request effect_InfoDone effect_StdoutData effect_StderrData
      effect_Close effect_ProcError effect_Timeout effect_VerifyDone effect_SleepDone
      effect_CheckFile effect_ServeFile effect_DeleteDownload effect_GetFilePath
      effect_StreamOpened effect_External)

section \<open>The invariant holds in every reachable state\<close>

text \<open>A call changes the record of its job and its own control state.\<close>

lemma inv_job_step:
  assumes "sys_ok s" and "jobs s i = Some c"
    and "\<And>d. rec_ok d \<Longrightarrow> job_ok c d \<Longrightarrow> rec_ok (f d) \<and> job_ok c' (f d)"
    and "activeDownloads s' = update (activeDownloads s) i f"
    and "jobs s' = (jobs s)(i \<mapsto> c')"
  shows "sys_ok s'"
proof -
  have "inv_on (update (activeDownloads s) i f) ((jobs s)(i \<mapsto> c'))"
  proof (rule inv_on_change [where js = "jobs s"])
    show "inv_on (activeDownloads s) (jobs s)"
      using assms(1) by (simp add: sys_ok_def)
  next
    fix d assume d: "map_get (activeDownloads s) i = Some d" "rec_ok d"
    from assms(1,2) obtain d0 where "map_get (activeDownloads s) i = Some d0" "job_ok c d0"
      unfolding sys_ok_def inv_on_def by blast
    with d have "job_ok c d" by simp
    with d(2) show "rec_ok (f d)"
      using assms(3) [of d] by simp
  next
    fix d c''
    assume "map_get (activeDownloads s) i = Some d" "rec_ok d"
      "((jobs s)(i \<mapsto> c')) i = Some c''" "\<forall>c. jobs s i = Some c \<longrightarrow> job_ok c d"
    then have "c'' = c'" "job_ok c d" "rec_ok d"
      using assms(2) by simp_all
    with assms(2) assms(3) [of d] show "jobs s i \<noteq> None \<and> job_ok c'' (f d)"
      by simp
  next
    assume "jobs s i = None"
    with assms(2) show "((jobs s)(i \<mapsto> c')) i = None" by simp
  next
    fix j assume "j \<noteq> i"
    then show "((jobs s)(i \<mapsto> c')) j = jobs s j" by simp
  qed
  with assms(4,5) show ?thesis by (simp add: sys_ok_def)
qed

text \<open>A handler changes the record under a key and no control state.\<close>

lemma inv_rec_step:
  assumes "sys_ok s"
    and "\<And>d. map_get (activeDownloads s) k = Some d \<Longrightarrow> rec_ok d \<Longrightarrow> rec_ok (f d)"
    and "\<And>d c. map_get (activeDownloads s) k = Some d \<Longrightarrow> jobs s k = Some c \<Longrightarrow> job_ok c d
            \<Longrightarrow> job_ok c (f d)"
    and "activeDownloads s' = update (activeDownloads s) k f"
    and "jobs s' = jobs s"
  shows "sys_ok s'"
proof -
  have "inv_on (update (activeDownloads s) k f) (jobs s)"
  proof (rule inv_on_change [where js = "jobs s"])
    show "inv_on (activeDownloads s) (jobs s)"
      using assms(1) by (simp add: sys_ok_def)
  next
    fix d assume "map_get (activeDownloads s) k = Some d" "rec_ok d"
    then show "rec_ok (f d)" by (rule assms(2))
  next
    fix d c'
    assume "map_get (activeDownloads s) k = Some d" "rec_ok d"
      "jobs s k = Some c'" "\<forall>c. jobs s k = Some c \<longrightarrow> job_ok c d"
    with assms(3) [of d c'] show "jobs s k \<noteq> None \<and> job_ok c' (f d)"
      by simp
  next
    assume "jobs s k = None"
    then show "jobs s k = None" .
  next
    fix j :: string
    show "jobs s j = jobs s j" ..
  qed
  with assms(4,5) show ?thesis by (simp add: sys_ok_def)
qed

lemma inv_same:
  assumes "sys_ok s" and "activeDownloads s' = activeDownloads s" and "jobs s' = jobs s"
  shows "sys_ok s'"
  using assms by (simp add: sys_ok_def)


lemma rec_ok_mark_error: "rec_ok (mark_error m d)"
  by (simp add: rec_ok_def mark_error_def)

lemma job_ok_settle:
  assumes "job_ok c d" and "phase c \<noteq> GettingInfo \<or> proc c = NotSpawned"
  shows "job_ok (c\<lparr>phase := Settled\<rparr>) (mark_error m d)"
  using assms by (auto simp: job_ok_def pending_def mark_error_def)

lemma job_ok_sleep:
  assumes "job_ok c d" and "phase c \<noteq> GettingInfo"
  shows "job_ok (c\<lparr>phase := Sleeping n r\<rparr>) d"
  using assms by (auto simp: job_ok_def pending_def)

lemma inv_download_failed:
  assumes "sys_ok s" and "jobs s i = Some c0" and "phase c \<noteq> GettingInfo \<or> proc c = NotSpawned"
    and "\<forall>d. job_ok c0 d \<longrightarrow> job_ok c d"
  shows "sys_ok (download_failed s i c m)"
proof (rule inv_job_step [OF assms(1,2)])
  show "activeDownloads (download_failed s i c m) = update (activeDownloads s) i (mark_error m)"
    by (simp add: download_failed_def)
  show "jobs (download_failed s i c m) = (jobs s)(i \<mapsto> c\<lparr>phase := Settled\<rparr>)"
    by (simp add: download_failed_def)
  fix d assume "rec_ok d" "job_ok c0 d"
  with assms(4) have "job_ok c d" by blast
  then have "job_ok (c\<lparr>phase := Settled\<rparr>) (mark_error m d)"
    using assms(3) by (rule job_ok_settle)
  then show "rec_ok (mark_error m d) \<and> job_ok (c\<lparr>phase := Settled\<rparr>) (mark_error m d)"
    by (simp add: rec_ok_mark_error)
qed

lemma inv_attempt_failed:
  assumes "sys_ok s" and "jobs s i = Some c0" and "phase c \<noteq> GettingInfo"
    and "\<forall>d. job_ok c0 d \<longrightarrow> job_ok c d"
  shows "sys_ok (attempt_failed s i c rc rd m)"
proof (cases "rc + 1 < maxRetries")
  case False
  have "sys_ok (download_failed s i c m)"
    using assms(1,2) _ assms(4) by (rule inv_download_failed) (simp add: assms(3))
  with False show ?thesis
    by (simp add: attempt_failed_def)
next
  case True
  have "sys_ok (s\<lparr>jobs := (jobs s)(i \<mapsto> c\<lparr>phase := Sleeping (rc + 1) rd\<rparr>),
              actions := actions s @ [Sleep i rd]\<rparr>)"
  proof (rule inv_job_step [OF assms(1,2), where f = "\<lambda>d. d"])
    fix d assume r: "rec_ok d" and "job_ok c0 d"
    with assms(4) have "job_ok c d" by blast
    then have "job_ok (c\<lparr>phase := Sleeping (rc + 1) rd\<rparr>) d"
      using assms(3) by (rule job_ok_sleep)
    with r show "rec_ok d \<and> job_ok (c\<lparr>phase := Sleeping (rc + 1) rd\<rparr>) d"
      by simp
  next
    show "activeDownloads (s\<lparr>jobs := (jobs s)(i \<mapsto> c\<lparr>phase := Sleeping (rc + 1) rd\<rparr>),
              actions := actions s @ [Sleep i rd]\<rparr>) = update (activeDownloads s) i (\<lambda>d. d)"
      by (simp add: update_id)
  next
    show "jobs (s\<lparr>jobs := (jobs s)(i \<mapsto> c\<lparr>phase := Sleeping (rc + 1) rd\<rparr>),
              actions := actions s @ [Sleep i rd]\<rparr>) = (jobs s)(i \<mapsto> c\<lparr>phase := Sleeping (rc + 1) rd\<rparr>)"
      by simp
  qed
  with True show ?thesis
    by (simp add: attempt_failed_def)
qed


lemma inv_get:
  assumes "sys_ok s" and "jobs s i = Some c"
  obtains d where "map_get (activeDownloads s) i = Some d" and "job_ok c d" and "rec_ok d"
  using assms unfolding sys_ok_def inv_on_def by blast

lemma inv_InfoDone:
  assumes "sys_ok s" and "step (InfoDone i r ts) s = Some s'"
  shows "sys_ok s'"
proof -
  from assms(2) obtain c where c: "jobs s i = Some c" "phase c = GettingInfo"
    by (auto split: option.splits if_splits)
  from assms(1) c(1) obtain d0 where d0: "job_ok c d0"
    by (rule inv_get)
  show ?thesis
  proof (cases r)
    case (Inl m)
    with assms(2) c have s': "s' = download_failed s i c m" by simp
    from d0 c(2) have "phase c \<noteq> GettingInfo \<or> proc c = NotSpawned"
      by (simp add: job_ok_def)
    with assms(1) c(1) have "sys_ok (download_failed s i c m)"
      by (rule inv_download_failed) simp
    with s' show ?thesis by simp
  next
    case (Inr out)
    with assms(2) c have s': "s' = info_resolved s i c out ts" by simp
    define ttl where "ttl = sanitize (trim out)"
    define fp where "fp = path_join (outputDir s)
       (ttl @ ''_'' @ job_videoId c @ ''_'' @ string_of_nat ts @ ''.mp4'')"
    show ?thesis
    proof (rule inv_job_step [OF assms(1) c(1)])
      show "activeDownloads s' = update (activeDownloads s) i (set_downloading fp \<circ> set_title ttl)"
        by (simp add: s' info_resolved_def Let_def update_update ttl_def fp_def)
      show "jobs s' = (jobs s)(i \<mapsto> c\<lparr>phase := Waiting 0 5000 Armed, proc := Running, attempts := 1\<rparr>)"
        by (simp add: s' info_resolved_def Let_def)
      fix d assume "rec_ok d" "job_ok c d"
      with c(2) show "rec_ok ((set_downloading fp \<circ> set_title ttl) d)
          \<and> job_ok (c\<lparr>phase := Waiting 0 5000 Armed, proc := Running, attempts := 1\<rparr>)
               ((set_downloading fp \<circ> set_title ttl) d)"
        by (auto simp: rec_ok_def job_ok_def pending_def set_downloading_def set_title_def
            fp_def path_join_def)
    qed
  qed
qed

lemma stdout_writes_update:
  "\<exists>f. stdout_writes st i out = update st i f
       \<and> (\<forall>d. status (f d) = status d \<and> filePath (f d) = filePath d
              \<and> progress (f d) = (case progressMatch out of None \<Rightarrow> progress d
                                   | Some p \<Rightarrow> min p 99))"
proof (cases "progressMatch out")
  case None
  show ?thesis
  proof (cases "includes_str out ''[Merger]''")
    case True
    with None have "stdout_writes st i out = update st i set_merging"
      by (simp add: stdout_writes_def)
    with None show ?thesis
      by (intro exI [of _ set_merging]) (simp add: set_merging_def)
  next
    case False
    with None have "stdout_writes st i out = update st i (\<lambda>d. d)"
      by (simp add: stdout_writes_def update_id)
    with None show ?thesis
      by (intro exI [of _ "\<lambda>d. d"]) simp
  qed
next
  case (Some p)
  show ?thesis
  proof (cases "includes_str out ''[Merger]''")
    case True
    with Some have "stdout_writes st i out = update st i (set_merging \<circ> set_progress p)"
      by (simp add: stdout_writes_def update_update)
    with Some show ?thesis
      by (intro exI [of _ "set_merging \<circ> set_progress p"])
         (simp add: set_merging_def set_progress_def)
  next
    case False
    with Some have "stdout_writes st i out = update st i (set_progress p)"
      by (simp add: stdout_writes_def)
    with Some show ?thesis
      by (intro exI [of _ "set_progress p"]) (simp add: set_progress_def)
  qed
qed

lemma inv_StdoutData:
  assumes "sys_ok s" and "step (StdoutData i out) s = Some s'"
  shows "sys_ok s'"
proof (cases "bar_overflow out")
  case True
  with assms(2) have "activeDownloads s' = activeDownloads s \<and> jobs s' = jobs s"
    by (auto simp: on_stdout_def split: option.splits if_splits)
  with assms(1) show ?thesis by (simp add: inv_same)
next
  case False
  with assms(2) obtain c where c: "jobs s i = Some c" "proc c = Running"
    and s': "s' = s\<lparr>activeDownloads := stdout_writes (activeDownloads s) i out\<rparr>"
    by (auto simp: on_stdout_def split: option.splits if_splits)
  from stdout_writes_update [of "activeDownloads s" i out] obtain f
    where f: "stdout_writes (activeDownloads s) i out = update (activeDownloads s) i f"
      and same: "\<And>d. status (f d) = status d" "\<And>d. filePath (f d) = filePath d"
      and prog: "\<And>d. progress (f d) = (case progressMatch out of None \<Rightarrow> progress d
                                           | Some p \<Rightarrow> min p 99)"
    by blast
  have le: "progress (f d) \<le> 99" if "progress d \<le> 99" for d
    using that by (simp add: prog split: option.splits)
  show ?thesis
  proof (rule inv_job_step [OF assms(1) c(1)])
    show "activeDownloads s' = update (activeDownloads s) i f"
      by (simp add: s' f)
    show "jobs s' = (jobs s)(i \<mapsto> c)"
      using c(1) by (simp add: s' fun_upd_idem)
    fix d assume "rec_ok d" "job_ok c d"
    with c(2) le [of d] show "rec_ok (f d) \<and> job_ok c (f d)"
      by (simp add: rec_ok_def job_ok_def same)
  qed
qed

lemma inv_StderrData:
  assumes "sys_ok s" and "step (StderrData i err) s = Some s'"
  shows "sys_ok s'"
proof -
  from assms(2) have "activeDownloads s' = activeDownloads s \<and> jobs s' = jobs s"
    by (auto split: option.splits if_splits)
  with assms(1) show ?thesis by (simp add: inv_same)
qed


lemma job_ok_exit:
  assumes "job_ok c d" and "proc c = Running" and "code \<noteq> Some 0"
  shows "job_ok (c\<lparr>proc := Exited code\<rparr>) d"
  using assms by (auto simp: job_ok_def pending_def)

lemma inv_jobs_only:
  assumes "sys_ok s" and "jobs s i = Some c" and "\<forall>d. job_ok c d \<longrightarrow> job_ok c' d"
    and "activeDownloads s' = activeDownloads s" and "jobs s' = (jobs s)(i \<mapsto> c')"
  shows "sys_ok s'"
proof (rule inv_job_step [OF assms(1,2), where f = "\<lambda>d. d"])
  show "activeDownloads s' = update (activeDownloads s) i (\<lambda>d. d)"
    by (simp add: assms(4) update_id)
  show "jobs s' = (jobs s)(i \<mapsto> c')"
    by (rule assms(5))
  fix d assume "rec_ok d" "job_ok c d"
  with assms(3) show "rec_ok d \<and> job_ok c' d" by blast
qed

lemma inv_Close:
  assumes "sys_ok s" and "step (Close i code) s = Some s'"
  shows "sys_ok s'"
proof -
  from assms(2) obtain c where c: "jobs s i = Some c" "proc c = Running"
    and s': "s' = on_close s i (c\<lparr>proc := Exited code\<rparr>) code"
    by (auto split: option.splits if_splits)
  show ?thesis
  proof (cases "code = Some 0")
    case True
    show ?thesis
    proof (cases "phase c")
      case (Waiting rc rd t)
      show ?thesis
      proof (rule inv_jobs_only [OF assms(1) c(1)])
        show "activeDownloads s' = activeDownloads s"
          using True Waiting by (simp add: s' on_close_def)
        show "jobs s' = (jobs s)(i \<mapsto> c\<lparr>proc := Exited code, phase := Waiting rc rd Cleared,
                                          stale := stale c + (attempts c - 1)\<rparr>)"
          using True Waiting by (simp add: s' on_close_def)
        show "\<forall>d. job_ok c d \<longrightarrow> job_ok (c\<lparr>proc := Exited code, phase := Waiting rc rd Cleared,
                                          stale := stale c + (attempts c - 1)\<rparr>) d"
          using True c(2) by (simp add: job_ok_def)
      qed
    next
      case GettingInfo
      from assms(1) c(1) obtain d where "job_ok c d" by (rule inv_get)
      with GettingInfo c(2) show ?thesis by (simp add: job_ok_def)
    next
      case (Sleeping rc rd)
      show ?thesis
      proof (rule inv_jobs_only [OF assms(1) c(1)])
        show "activeDownloads s' = activeDownloads s"
          using True Sleeping by (simp add: s' on_close_def)
        show "jobs s' = (jobs s)(i \<mapsto> c\<lparr>proc := Exited code, stale := stale c + attempts c\<rparr>)"
          using True Sleeping by (simp add: s' on_close_def)
        show "\<forall>d. job_ok c d \<longrightarrow> job_ok (c\<lparr>proc := Exited code, stale := stale c + attempts c\<rparr>) d"
          using True c(2) Sleeping by (simp add: job_ok_def pending_def)
      qed
    next
      case Settled
      show ?thesis
      proof (rule inv_jobs_only [OF assms(1) c(1)])
        show "activeDownloads s' = activeDownloads s"
          using True Settled by (simp add: s' on_close_def)
        show "jobs s' = (jobs s)(i \<mapsto> c\<lparr>proc := Exited code, stale := stale c + attempts c\<rparr>)"
          using True Settled by (simp add: s' on_close_def)
        show "\<forall>d. job_ok c d \<longrightarrow> job_ok (c\<lparr>proc := Exited code, stale := stale c + attempts c\<rparr>) d"
          using True c(2) Settled by (simp add: job_ok_def pending_def)
      qed
    qed
  next
    case False
    have ok: "\<forall>d. job_ok c d \<longrightarrow> job_ok (c\<lparr>proc := Exited code\<rparr>) d"
      using c(2) False by (simp add: job_ok_exit)
    show ?thesis
    proof (cases "\<exists>rc rd t. phase c = Waiting rc rd t")
      case True
      then obtain rc rd t where w: "phase c = Waiting rc rd t" by blast
      have "sys_ok (attempt_failed s i (c\<lparr>proc := Exited code\<rparr>) rc rd
                  (''Download failed with code '' @ code_string code))"
        using assms(1) c(1) _ ok by (rule inv_attempt_failed) (simp add: w)
      with False w show ?thesis
        by (simp add: s' on_close_def)
    next
      case nw: False
      show ?thesis
      proof (rule inv_jobs_only [OF assms(1) c(1) ok])
        show "activeDownloads s' = activeDownloads s"
          using False nw by (cases "phase c") (simp_all add: s' on_close_def)
        show "jobs s' = (jobs s)(i \<mapsto> c\<lparr>proc := Exited code\<rparr>)"
          using False nw by (cases "phase c") (simp_all add: s' on_close_def)
      qed
    qed
  qed
qed

lemma inv_ProcError:
  assumes "sys_ok s" and "step (ProcError i m) s = Some s'"
  shows "sys_ok s'"
proof -
  from assms(2) obtain c rc rd t where c: "jobs s i = Some c" "phase c = Waiting rc rd t"
    and s': "s' = attempt_failed s i (if t = Cleared then c\<lparr>stale := stale c + 1\<rparr> else c) rc rd m"
    by (auto split: option.splits phase.splits)
  have ok: "\<forall>d. job_ok c d \<longrightarrow> job_ok (if t = Cleared then c\<lparr>stale := stale c + 1\<rparr> else c) d"
    using c(2) by (simp add: job_ok_def pending_def)
  have "sys_ok (attempt_failed s i (if t = Cleared then c\<lparr>stale := stale c + 1\<rparr> else c) rc rd m)"
    using assms(1) c(1) _ ok by (rule inv_attempt_failed) (simp add: c(2))
  with s' show ?thesis by simp
qed

lemma inv_Timeout:
  assumes "sys_ok s" and "step (Timeout i) s = Some s'"
  shows "sys_ok s'"
proof -
  from assms(2) obtain c rc rd where c: "jobs s i = Some c" "phase c = Waiting rc rd Armed"
    and s': "s' = attempt_failed (s\<lparr>actions := actions s @ [Kill i]\<rparr>) i c rc rd ''Download timeout''"
    by (auto split: option.splits phase.splits if_splits timer.splits)
  have "sys_ok (s\<lparr>actions := actions s @ [Kill i]\<rparr>)"
    using assms(1) by (simp add: sys_ok_def)
  moreover have "jobs (s\<lparr>actions := actions s @ [Kill i]\<rparr>) i = Some c"
    using c(1) by simp
  ultimately have "sys_ok (attempt_failed (s\<lparr>actions := actions s @ [Kill i]\<rparr>) i c rc rd ''Download timeout'')"
    by (rule inv_attempt_failed) (simp_all add: c(2))
  with s' show ?thesis by simp
qed


lemma inv_verify:
  assumes "sys_ok s" and c: "jobs s i = Some c" "pending c"
    and c': "c' = c\<lparr>phase := Settled\<rparr> \<or> c' = c\<lparr>stale := stale c - 1\<rparr>"
    and st: "activeDownloads s' = update (activeDownloads s) i (mark_completed (job_quality c) q)"
    and js: "jobs s' = (jobs s)(i \<mapsto> c')"
  shows "sys_ok s'"
proof (rule inv_job_step [OF assms(1) c(1) _ st js])
  fix d assume "rec_ok d" and ok: "job_ok c d"
  with c(2) have e: "proc c = Exited (Some 0)" "truthy (filePath d)"
    by (simp_all add: job_ok_def)
  have "proc c' = proc c" "phase c' \<noteq> GettingInfo \<or> phase c' = phase c"
    using c' by auto
  with ok e have "job_ok c' (mark_completed (job_quality c) q d)"
    by (auto simp: job_ok_def mark_completed_def)
  with e show "rec_ok (mark_completed (job_quality c) q d)
      \<and> job_ok c' (mark_completed (job_quality c) q d)"
    by (simp add: rec_ok_def mark_completed_def)
qed

lemma inv_VerifyDone:
  assumes "sys_ok s" and "step (VerifyDone i q own) s = Some s'"
  shows "sys_ok s'"
proof (cases own)
  case True
  with assms(2) obtain c rc rd where c: "jobs s i = Some c" "phase c = Waiting rc rd Cleared"
    and s': "s' = s\<lparr>activeDownloads := completed_write (activeDownloads s) i (job_quality c) q,
                    jobs := (jobs s)(i \<mapsto> c\<lparr>phase := Settled\<rparr>),
                    actions := actions s @ [Respond (Response 200 (StartedBody i))]\<rparr>"
    by (auto split: option.splits phase.splits if_splits)
  from c(2) have "pending c" by (simp add: pending_def)
  with assms(1) c(1) show ?thesis
    by (rule inv_verify [where c' = "c\<lparr>phase := Settled\<rparr>" and q = q])
       (simp_all add: s' completed_write_def)
next
  case False
  with assms(2) obtain c where c: "jobs s i = Some c" "stale c \<noteq> 0"
    and s': "s' = s\<lparr>activeDownloads := completed_write (activeDownloads s) i (job_quality c) q,
                    jobs := (jobs s)(i \<mapsto> c\<lparr>stale := stale c - 1\<rparr>)\<rparr>"
    by (auto split: option.splits if_splits)
  from c(2) have "pending c" by (simp add: pending_def)
  with assms(1) c(1) show ?thesis
    by (rule inv_verify [where c' = "c\<lparr>stale := stale c - 1\<rparr>" and q = q])
       (simp_all add: s' completed_write_def)
qed

lemma inv_SleepDone:
  assumes "sys_ok s" and "step (SleepDone i) s = Some s'"
  shows "sys_ok s'"
proof -
  from assms(2) obtain c rc rd where c: "jobs s i = Some c" "phase c = Sleeping rc rd"
    and s': "s' = s\<lparr>jobs := (jobs s)(i \<mapsto> c\<lparr>phase := Waiting rc (rd * 2) Armed,
                                              attempts := attempts c + 1\<rparr>)\<rparr>"
    by (auto split: option.splits phase.splits)
  show ?thesis
  proof (rule inv_jobs_only [OF assms(1) c(1)])
    show "\<forall>d. job_ok c d \<longrightarrow> job_ok (c\<lparr>phase := Waiting rc (rd * 2) Armed,
                                              attempts := attempts c + 1\<rparr>) d"
      using c(2) by (simp add: job_ok_def pending_def)
  qed (simp_all add: s')
qed

lemma inv_requeue:
  assumes "sys_ok s" and "lookup_entry (activeDownloads s) i = Some (k, d0)"
    and "status d0 = Completed \<or> truthy (filePath d0)"
    and "activeDownloads s' = map_set (activeDownloads s) k (mark_for_redownload d0)"
    and "jobs s' = jobs s"
  shows "sys_ok s'"
proof -
  have "distinct (keys (activeDownloads s))"
    using assms(1) by (simp add: sys_ok_def inv_on_def)
  then have d0: "map_get (activeDownloads s) k = Some d0"
    using assms(2) by (rule lookup_entry_map_get)
  show ?thesis
  proof (rule inv_rec_step [OF assms(1) _ _ _ assms(5)])
    show "activeDownloads s' = update (activeDownloads s) k mark_for_redownload"
      using d0 by (simp add: assms(4) update_def)
    fix d assume "map_get (activeDownloads s) k = Some d" "rec_ok d"
    then show "rec_ok (mark_for_redownload d)"
      by (simp add: rec_ok_def mark_for_redownload_def)
  next
    fix d c assume "map_get (activeDownloads s) k = Some d" "jobs s k = Some c" "job_ok c d"
    with d0 assms(3) show "job_ok c (mark_for_redownload d)"
      by (auto simp: job_ok_def mark_for_redownload_def)
  qed
qed

lemma inv_CheckFile:
  assumes "sys_ok s" and "step (CheckFile i) s = Some s'"
  shows "sys_ok s'"
proof -
  from assms(2) have
    "(activeDownloads s' = activeDownloads s \<and> jobs s' = jobs s)
     \<or> (\<exists>k0 d0. lookup_entry (activeDownloads s) i = Some (k0, d0) \<and> status d0 = Completed
           \<and> activeDownloads s' = map_set (activeDownloads s) k0 (mark_for_redownload d0)
           \<and> jobs s' = jobs s)"
    by (auto simp: checkFileHandler_def respond_def split: option.splits if_splits prod.splits)
  then show ?thesis
  proof (elim disjE exE conjE)
    assume "activeDownloads s' = activeDownloads s" "jobs s' = jobs s"
    with assms(1) show ?thesis by (rule inv_same)
  next
    fix k0 d0
    assume "lookup_entry (activeDownloads s) i = Some (k0, d0)" "status d0 = Completed"
      "activeDownloads s' = map_set (activeDownloads s) k0 (mark_for_redownload d0)"
      "jobs s' = jobs s"
    with assms(1) show ?thesis
      by (simp add: inv_requeue [of s i k0 d0 s'])
  qed
qed

lemma inv_ServeFile:
  assumes "sys_ok s" and "step (ServeFile i) s = Some s'"
  shows "sys_ok s'"
proof -
  from assms(2) have
    "(activeDownloads s' = activeDownloads s \<and> jobs s' = jobs s)
     \<or> (\<exists>k0 d0. lookup_entry (activeDownloads s) i = Some (k0, d0) \<and> truthy (filePath d0)
           \<and> activeDownloads s' = map_set (activeDownloads s) k0 (mark_for_redownload d0)
           \<and> jobs s' = jobs s)"
    by (auto simp: serveFileHandler_def respond_def split: option.splits if_splits prod.splits)
  then show ?thesis
  proof (elim disjE exE conjE)
    assume "activeDownloads s' = activeDownloads s" "jobs s' = jobs s"
    with assms(1) show ?thesis by (rule inv_same)
  next
    fix k0 d0
    assume "lookup_entry (activeDownloads s) i = Some (k0, d0)" "truthy (filePath d0)"
      "activeDownloads s' = map_set (activeDownloads s) k0 (mark_for_redownload d0)"
      "jobs s' = jobs s"
    with assms(1) show ?thesis
      by (simp add: inv_requeue [of s i k0 d0 s'])
  qed
qed

lemma deleteDownloadHandler_jobs:
  "jobs (fst (deleteDownloadHandler s i)) = jobs s"
  by (simp add: deleteDownloadHandler_def Let_def split: list.splits option.splits)

lemma inv_DeleteDownload:
  assumes "sys_ok s" and "step (DeleteDownload i) s = Some s'"
  shows "sys_ok s'"
proof -
  from assms(2) have "activeDownloads s' = activeDownloads s" "jobs s' = jobs s"
    using deleteDownloadHandler_store [of s i] deleteDownloadHandler_jobs [of s i]
    by (auto simp: respond_def split: prod.splits)
  with assms(1) show ?thesis by (rule inv_same)
qed

lemma inv_GetFilePath:
  assumes "sys_ok s" and "step (GetFilePath i) s = Some s'"
  shows "sys_ok s'"
proof -
  from assms(2) have
    "(activeDownloads s' = activeDownloads s \<and> jobs s' = jobs s)
     \<or> (\<exists>d fp. map_get (activeDownloads s) i = Some d \<and> status d = Completed \<and> fp \<noteq> []
           \<and> activeDownloads s' = map_set (activeDownloads s) i (d\<lparr>filePath := Some fp\<rparr>)
           \<and> jobs s' = jobs s)"
    by (auto simp: getDownloadFilePath_def createDummyVideoFile_def Let_def path_join_def
        split: option.splits if_splits)
  then show ?thesis
  proof (elim disjE exE conjE)
    assume "activeDownloads s' = activeDownloads s" "jobs s' = jobs s"
    with assms(1) show ?thesis by (rule inv_same)
  next
    fix d0 fp
    assume d0: "map_get (activeDownloads s) i = Some d0" "status d0 = Completed" "fp \<noteq> []"
      and st: "activeDownloads s' = map_set (activeDownloads s) i (d0\<lparr>filePath := Some fp\<rparr>)"
      and js: "jobs s' = jobs s"
    show ?thesis
    proof (rule inv_rec_step [OF assms(1) _ _ _ js])
      show "activeDownloads s' = update (activeDownloads s) i (\<lambda>d. d\<lparr>filePath := Some fp\<rparr>)"
        using d0 by (simp add: st update_def)
      fix d assume "map_get (activeDownloads s) i = Some d" "rec_ok d"
      with d0 show "rec_ok (d\<lparr>filePath := Some fp\<rparr>)"
        by (simp add: rec_ok_def)
    next
      fix d c assume "map_get (activeDownloads s) i = Some d" "jobs s i = Some c" "job_ok c d"
      with d0 show "job_ok c (d\<lparr>filePath := Some fp\<rparr>)"
        by (auto simp: job_ok_def)
    qed
  qed
qed

lemma inv_step:
  assumes "sys_ok s" and "step e s = Some s'"
  shows "sys_ok s'"
proof (cases e)
  case Request
  with assms(2) show ?thesis using inv_Request [OF assms(1)] by simp
next
  case InfoDone
  with assms(2) show ?thesis using inv_InfoDone [OF assms(1)] by simp
next
  case StdoutData
  with assms(2) show ?thesis using inv_StdoutData [OF assms(1)] by simp
next
  case StderrData
  with assms(2) show ?thesis using inv_StderrData [OF assms(1)] by simp
next
  case Close
  with assms(2) show ?thesis using inv_Close [OF assms(1)] by simp
next
  case ProcError
  with assms(2) show ?thesis using inv_ProcError [OF assms(1)] by simp
next
  case Timeout
  with assms(2) show ?thesis using inv_Timeout [OF assms(1)] by simp
next
  case VerifyDone
  with assms(2) show ?thesis using inv_VerifyDone [OF assms(1)] by simp
next
  case SleepDone
  with assms(2) show ?thesis using inv_SleepDone [OF assms(1)] by simp
next
  case CheckFile
  with assms(2) show ?thesis using inv_CheckFile [OF assms(1)] by simp
next
  case ServeFile
  with assms(2) show ?thesis using inv_ServeFile [OF assms(1)] by simp
next
  case DeleteDownload
  with assms(2) show ?thesis using inv_DeleteDownload [OF assms(1)] by simp
next
  case GetFilePath
  with assms(2) show ?thesis using inv_GetFilePath [OF assms(1)] by auto
next
  case (StreamOpened p)
  with assms show ?thesis by (auto simp: sys_ok_def stream_opened_def split: if_splits)
next
  case (External fs)
  with assms show ?thesis by (auto simp: sys_ok_def)
qed

lemma inv_run:
  assumes "sys_ok s" and "run evs s = Some s'"
  shows "sys_ok s'"
  using assms
proof (induction evs arbitrary: s)
  case Nil
  then show ?case by simp
next
  case (Cons e evs)
  from Cons.prems(2) obtain s1 where s1: "step e s = Some s1" "run evs s1 = Some s'"
    by (auto split: if_splits option.splits)
  from Cons.prems(1) s1(1) have "sys_ok s1" by (rule inv_step)
  then show ?case using s1(2) by (rule Cons.IH)
qed

section \<open>Progress, completion and the file path\<close>

text \<open>Evaluation of the example inputs.\<close>

lemma vid1: "extractVideoId ''https://youtu.be/abcdefghijk'' t = ''abcdefghijk''"
  by (simp add: extractVideoId_def match_here_def url_head_def group11_def id_char_def
      is_space_def dot_def to_lower_def)

lemma son: "string_of_nat 2 = ''2''" "string_of_nat 3 = ''3''" "string_of_int 1 = ''1''"
  by code_simp+

lemma pm1: "progressMatch line45 = Some (453 / 10)"
  by code_simp

lemma pm2: "includes_str line45 ''[Merger]'' = False"
  by code_simp

lemma pm20: "progressMatch line20 = Some 20" "includes_str line20 ''[Merger]'' = False"
  by code_simp+

lemma bo1: "bar_overflow line45 = False" "bar_overflow line20 = False"
  by (simp_all add: bar_overflow_def pm1 pm20)


lemmas model_defs = init_def downloadHandler_def downloadFromUrl_start_def completedDownload_def
  inProgressDownload_def existingDownloads_def new_downloadId_def new_record_def new_ctl_def
  respond_def existsSync_def keys_def info_resolved_def update_def sanitize_def trim_def
  is_space_def path_join_def on_close_def attempt_failed_def download_failed_def maxRetries_def
  code_string_def or_else_def Let_def set_title_def set_downloading_def mark_error_def
  on_stdout_def stdout_writes_def set_progress_def set_merging_def completed_write_def
  mark_completed_def


text \<open>
  While the child process runs, the progress of its job is at most 99: a chunk at which
  the listener throws leaves the record as it is, and any other chunk with a percentage
  stores the smaller of the percentage and 99.
\<close>

lemma stdout_clamp:
  assumes "sys_ok s" and "step (StdoutData i out) s = Some s'"
    and "map_get (activeDownloads s') i = Some d'"
  shows "progress d' \<le> 99"
proof -
  from assms(2) obtain c where c: "jobs s i = Some c" "proc c = Running"
    by (auto split: option.splits if_splits)
  with assms(1) obtain d where d: "map_get (activeDownloads s) i = Some d" "job_ok c d"
    unfolding sys_ok_def inv_on_def by blast
  with c(2) have le: "progress d \<le> 99"
    by (simp add: job_ok_def)
  show ?thesis
  proof (cases "bar_overflow out")
    case True
    with assms(2) c have "activeDownloads s' = activeDownloads s"
      by (auto simp: on_stdout_def)
    with assms(3) d(1) le show ?thesis by simp
  next
    case False
    with assms(2) c have s': "activeDownloads s' = stdout_writes (activeDownloads s) i out"
      by (auto simp: on_stdout_def)
    from stdout_writes_update [of "activeDownloads s" i out] obtain f
      where f: "stdout_writes (activeDownloads s) i out = update (activeDownloads s) i f"
        and p: "\<And>d. progress (f d) = (case progressMatch out of None \<Rightarrow> progress d
                                          | Some p \<Rightarrow> min p 99)"
      by blast
    from assms(3) s' f d(1) have "d' = f d"
      by (simp add: map_get_update)
    with p [of d] le show ?thesis
      by (simp split: option.splits)
  qed
qed

text \<open>
  C6: in every state that the server reaches from its start, by any sequence of events,
  a record with status \<open>completed\<close> has progress 100 and a file path; and for every
  step from such a state, a chunk of subprocess output with a percentage leaves the progress
  of its job at most 99, and a record whose progress becomes 100 becomes \<open>completed\<close> in
  the same step, taken by a \<open>close\<close> listener after exit code 0 and the check of the
  quality.
\<close>

theorem completed_has_100_and_file:
  assumes "run evs (init dir fs) = Some s"
  shows "(\<forall>(k, d) \<in> set (activeDownloads s).
            status d = Completed \<longrightarrow> progress d = 100 \<and> truthy (filePath d))
       \<and> (\<forall>e s' k d'. step e s = Some s' \<and> map_get (activeDownloads s') k = Some d' \<longrightarrow>
            (\<forall>out. e = StdoutData k out \<and> progressMatch out \<noteq> None \<longrightarrow> progress d' \<le> 99)
            \<and> (progress d' = 100 \<and> map_option progress (map_get (activeDownloads s) k) \<noteq> Some 100
                 \<longrightarrow> status d' = Completed
                     \<and> (\<exists>q own c. e = VerifyDone k q own \<and> jobs s k = Some c
                           \<and> proc c = Exited (Some 0))))"
proof -
  have ok: "sys_ok s"
    using inv_init assms by (rule inv_run)
  have 1: "status d = Completed \<longrightarrow> progress d = 100 \<and> truthy (filePath d)"
    if "(k, d) \<in> set (activeDownloads s)" for k d
  proof -
    from ok have "distinct (keys (activeDownloads s))"
      by (simp add: sys_ok_def inv_on_def)
    with that have "map_get (activeDownloads s) k = Some d"
      by (simp add: map_get_in_set)
    with ok have "rec_ok d"
      unfolding sys_ok_def inv_on_def by blast
    then show ?thesis by (simp add: rec_ok_def)
  qed
  have 2: "progress d' \<le> 99"
    if "step (StdoutData k out) s = Some s'" "map_get (activeDownloads s') k = Some d'"
      "progressMatch out \<noteq> None" for s' k d' out
    using ok that(1,2) by (rule stdout_clamp)
  have 3: "status d' = Completed
        \<and> (\<exists>q own c. e = VerifyDone k q own \<and> jobs s k = Some c \<and> proc c = Exited (Some 0))"
    if "step e s = Some s'" "map_get (activeDownloads s') k = Some d'" "progress d' = 100"
      "map_option progress (map_get (activeDownloads s) k) \<noteq> Some 100" for e s' k d'
  proof -
    from that(1) ok that(2) have "effect e s k (map_get (activeDownloads s) k) d'"
      by (rule step_effect)
    with that(3,4) show ?thesis
      by (auto simp: effect_def new_record_def split: option.splits)
  qed
  from 1 2 3 show ?thesis by blast
qed


lemma happy_run:
  "map_option (\<lambda>s. map (\<lambda>(k, d). (k, status d)) (activeDownloads s))
     (run happy_script (init ''/d'' (\<lambda>_. None)))
   = Some [(''abcdefghijk_2'', Completed)]"
  by (simp add: happy_script_def start_script_def vid1 son pm1 pm2 bo1 model_defs)

theorem completed_has_100_and_file_witness:
  "map_option (\<lambda>s. map (\<lambda>(k, d). (k, status d, progress d, truthy (filePath d))) (activeDownloads s))
     (run happy_script (init ''/d'' (\<lambda>_. None)))
   = Some [(''abcdefghijk_2'', Completed, 100, True)]"
proof -
  from happy_run obtain s where s: "run happy_script (init ''/d'' (\<lambda>_. None)) = Some s"
    and st: "map (\<lambda>(k, d). (k, status d)) (activeDownloads s) = [(''abcdefghijk_2'', Completed)]"
    by (cases "run happy_script (init ''/d'' (\<lambda>_. None))") simp_all
  from st obtain d where a: "activeDownloads s = [(''abcdefghijk_2'', d)]" "status d = Completed"
    by (auto simp: map_eq_Cons_conv)
  from completed_has_100_and_file [OF s]
  have "\<forall>(k, d) \<in> set (activeDownloads s).
          status d = Completed \<longrightarrow> progress d = 100 \<and> truthy (filePath d)"
    by (rule conjunct1)
  with a have "progress d = 100 \<and> truthy (filePath d)"
    by simp
  with s a show ?thesis by simp
qed

section \<open>Retries\<close>

lemma attempt_failed_actions:
  "\<exists>new. actions (attempt_failed s i c rc rd m) = actions s @ new \<and> (\<forall>j. Spawn j \<notin> set new)"
  by (auto simp: attempt_failed_def download_failed_def)

text \<open>
  The subprocess of a job is launched by one kind of step only, the one after the title
  command; no round of the retry loop launches it.
\<close>

lemma spawn_only_after_title:
  assumes "step e s = Some s'"
  shows "\<exists>new. actions s' = actions s @ new
           \<and> (\<forall>i. Spawn i \<in> set new \<longrightarrow> (\<exists>out ts. e = InfoDone i (Inr out) ts))"
proof (cases e)
  case (Request url q pl t1 t2)
  with step_Request_shape [of url q pl t1 t2 s s'] assms show ?thesis by auto
next
  case (InfoDone j r ts)
  with assms show ?thesis
    by (cases r)
       (auto simp: download_failed_def info_resolved_def Let_def split: option.splits if_splits)
next
  case (StdoutData j out)
  with assms show ?thesis by (auto simp: on_stdout_def split: option.splits if_splits)
next
  case (StderrData j err)
  with assms show ?thesis by (auto split: option.splits if_splits)
next
  case (Close j code)
  with assms obtain c where "s' = on_close s j c code"
    by (auto split: option.splits if_splits)
  moreover have "\<exists>new. actions (on_close s j c code) = actions s @ new \<and> (\<forall>i. Spawn i \<notin> set new)"
    using attempt_failed_actions [of s j c]
    by (auto simp: on_close_def split: phase.splits)
  ultimately show ?thesis by auto
next
  case (ProcError j m)
  with assms obtain c rc rd where "s' = attempt_failed s j c rc rd m"
    by (auto split: option.splits phase.splits)
  with attempt_failed_actions [of s j c rc rd m] show ?thesis by auto
next
  case (Timeout j)
  with assms obtain c rc rd where
    "s' = attempt_failed (s\<lparr>actions := actions s @ [Kill j]\<rparr>) j c rc rd ''Download timeout''"
    by (auto split: option.splits phase.splits if_splits)
  with attempt_failed_actions [of "s\<lparr>actions := actions s @ [Kill j]\<rparr>" j c rc rd "''Download timeout''"]
  show ?thesis by auto
next
  case (VerifyDone j q own)
  with assms show ?thesis by (auto split: option.splits phase.splits if_splits)
next
  case (SleepDone j)
  with assms show ?thesis by (auto split: option.splits phase.splits)
next
  case (CheckFile j)
  with assms show ?thesis
    by (auto simp: checkFileHandler_def respond_def split: option.splits if_splits prod.splits)
next
  case (ServeFile j)
  with assms show ?thesis
    by (auto simp: serveFileHandler_def respond_def split: option.splits if_splits prod.splits)
next
  case (DeleteDownload j)
  with assms show ?thesis
    by (auto simp: deleteDownloadHandler_def respond_def Let_def
        split: option.splits if_splits prod.splits list.splits)
next
  case (GetFilePath j)
  with assms show ?thesis
    by (auto simp: getDownloadFilePath_def createDummyVideoFile_def Let_def
        split: option.splits if_splits)
next
  case (StreamOpened p)
  with assms show ?thesis by (auto simp: stream_opened_def split: if_splits)
next
  case (External fs)
  with assms show ?thesis by auto
qed

text \<open>
  C3 (the code departs from the claim): a request for \<open>https://youtu.be/abcdefghijk\<close>
  whose subprocess exits with code 1. The process is launched once, before the retry loop;
  the second and third round of the loop wait on the process that has already ended, so each
  of them ends by the timeout of 600 seconds. The delays are 5 and 10 seconds, and the job
  ends with status \<open>error\<close> and the message of the last round. The actions show one
  \<open>Spawn\<close>, where the claim has three launches.
\<close>

theorem retry_launches_once:
  "map_option actions (run fail_script (init ''/d'' (\<lambda>_. None)))
     = Some [Spawn ''abcdefghijk_2'', Sleep ''abcdefghijk_2'' 5000, Kill ''abcdefghijk_2'',
             Sleep ''abcdefghijk_2'' 10000, Kill ''abcdefghijk_2'',
             Respond (Response 500 (ErrorBody ''Download timeout''))]
   \<and> map_option (\<lambda>s. map_get (activeDownloads s) ''abcdefghijk_2'')
        (run fail_script (init ''/d'' (\<lambda>_. None)))
     = Some (Some \<lparr>videoId = ''abcdefghijk'', progress = 0, status = Error, title = Some ''T'',
                   message = Some ''Download timeout'',
                   filePath = Some ''/d/T_abcdefghijk_3.mp4''\<rparr>)"
  by (simp add: fail_script_def fail_prefix_def start_script_def vid1 son model_defs)

section \<open>Changes of the status\<close>

lemma run_snoc:
  "run (evs @ [e]) s =
     (case run evs s of None \<Rightarrow> None | Some s1 \<Rightarrow> if crashed s1 then None else step e s1)"
  by (induction evs arbitrary: s) (auto split: option.splits)

lemma run_snoc_step:
  assumes "run evs s0 = Some s" and "run (evs @ [e]) s0 = Some s'"
  shows "step e s = Some s'"
  using assms by (auto simp: run_snoc split: if_splits)

text \<open>
  C7, as amended: a job is created with status \<open>processing\<close>; after that, in every
  reachable state, a step that changes the status of a record is one of these: to
  \<open>downloading\<close>, from \<open>processing\<close>, when the title command has ended well; to
  \<open>completed\<close>, written by a \<open>close\<close> listener after exit code 0; to \<open>error\<close>, at
  a failure of the title command or of an attempt; to \<open>queued\<close> with progress 0, by the
  check endpoint from \<open>completed\<close> or by the serve endpoint from any status of a record
  with a file path.
\<close>

theorem status_changes:
  assumes "run evs (init dir fs) = Some s" and "run (evs @ [e]) (init dir fs) = Some s'"
  shows "(\<forall>k d'. map_get (activeDownloads s) k = None \<and> map_get (activeDownloads s') k = Some d'
            \<longrightarrow> status d' = Processing)
       \<and> (\<forall>k d d'. map_get (activeDownloads s) k = Some d \<and> map_get (activeDownloads s') k = Some d'
              \<and> status d' \<noteq> status d \<longrightarrow>
            status d' = Downloading \<and> status d = Processing \<and> (\<exists>out ts. e = InfoDone k (Inr out) ts)
            \<or> status d' = Completed
                \<and> (\<exists>q own c. e = VerifyDone k q own \<and> jobs s k = Some c \<and> proc c = Exited (Some 0))
            \<or> status d' = Error \<and> failure_event e k
            \<or> status d' = Queued \<and> progress d' = 0
                \<and> ((\<exists>i. e = CheckFile i) \<and> status d = Completed
                     \<or> (\<exists>i. e = ServeFile i) \<and> truthy (filePath d)))"
proof -
  have ok: "sys_ok s"
    using inv_init assms(1) by (rule inv_run)
  have st: "step e s = Some s'"
    using assms by (rule run_snoc_step)
  have eff: "effect e s k (map_get (activeDownloads s) k) d'"
    if "map_get (activeDownloads s') k = Some d'" for k d'
    using st ok that by (rule step_effect)
  have 1: "status d' = Processing"
    if "map_get (activeDownloads s) k = None" "map_get (activeDownloads s') k = Some d'" for k d'
    using eff [OF that(2)] that(1) by (auto simp: effect_def new_record_def)
  have 2: "status d' = Downloading \<and> status d = Processing \<and> (\<exists>out ts. e = InfoDone k (Inr out) ts)
            \<or> status d' = Completed
                \<and> (\<exists>q own c. e = VerifyDone k q own \<and> jobs s k = Some c \<and> proc c = Exited (Some 0))
            \<or> status d' = Error \<and> failure_event e k
            \<or> status d' = Queued \<and> progress d' = 0
                \<and> ((\<exists>i. e = CheckFile i) \<and> status d = Completed
                     \<or> (\<exists>i. e = ServeFile i) \<and> truthy (filePath d))"
    if "map_get (activeDownloads s) k = Some d" "map_get (activeDownloads s') k = Some d'"
      "status d' \<noteq> status d" for k d d'
    using eff [OF that(2)] that(1,3) by (auto simp: effect_def)
  from 1 2 show ?thesis by blast
qed

lemma fail_before:
  "map_option (\<lambda>s. map_option status (map_get (activeDownloads s) ''abcdefghijk_2''))
     (run fail_prefix (init ''/d'' (\<lambda>_. None))) = Some (Some Downloading)"
  by (simp add: fail_prefix_def start_script_def vid1 son model_defs)

lemma fail_after:
  "map_option (\<lambda>s. map_option status (map_get (activeDownloads s) ''abcdefghijk_2''))
     (run (fail_prefix @ [Timeout ''abcdefghijk_2'']) (init ''/d'' (\<lambda>_. None))) = Some (Some Error)"
  by (simp add: fail_prefix_def start_script_def vid1 son model_defs)

theorem status_changes_witness:
  "failure_event (Timeout ''abcdefghijk_2'') ''abcdefghijk_2''"
proof -
  from fail_before obtain s d
    where s: "run fail_prefix (init ''/d'' (\<lambda>_. None)) = Some s"
      and d: "map_get (activeDownloads s) ''abcdefghijk_2'' = Some d" "status d = Downloading"
    by (cases "run fail_prefix (init ''/d'' (\<lambda>_. None))") auto
  from fail_after obtain s' d'
    where s': "run (fail_prefix @ [Timeout ''abcdefghijk_2'']) (init ''/d'' (\<lambda>_. None)) = Some s'"
      and d': "map_get (activeDownloads s') ''abcdefghijk_2'' = Some d'" "status d' = Error"
    by (cases "run (fail_prefix @ [Timeout ''abcdefghijk_2'']) (init ''/d'' (\<lambda>_. None))") auto
  from status_changes [OF s s']
  have "\<forall>k d d'. map_get (activeDownloads s) k = Some d \<and> map_get (activeDownloads s') k = Some d'
              \<and> status d' \<noteq> status d \<longrightarrow>
            status d' = Downloading \<and> status d = Processing
              \<and> (\<exists>out ts. Timeout ''abcdefghijk_2'' = InfoDone k (Inr out) ts)
            \<or> status d' = Completed
                \<and> (\<exists>q own c. Timeout ''abcdefghijk_2'' = VerifyDone k q own \<and> jobs s k = Some c
                      \<and> proc c = Exited (Some 0))
            \<or> status d' = Error \<and> failure_event (Timeout ''abcdefghijk_2'') k
            \<or> status d' = Queued \<and> progress d' = 0
                \<and> ((\<exists>i. Timeout ''abcdefghijk_2'' = CheckFile i) \<and> status d = Completed
                     \<or> (\<exists>i. Timeout ''abcdefghijk_2'' = ServeFile i) \<and> truthy (filePath d))"
    by (rule conjunct2)
  with d d' show ?thesis by fastforce
qed

text \<open>
  C7 as stated fails: the new job of a request has status \<open>processing\<close>, not
  \<open>queued\<close>; and a request to the serve endpoint while the job is downloading (the file
  is not yet on disk) takes the job from \<open>downloading\<close> to \<open>queued\<close>, from where the
  end of the subprocess takes it to \<open>completed\<close>.
\<close>

theorem initial_status_counterexample:
  "map_option (\<lambda>s. map (\<lambda>(k, d). (k, status d)) (activeDownloads s))
     (run [Request (Some ''https://youtu.be/abcdefghijk'') ''720p'' False 1 2] (init ''/d'' (\<lambda>_. None)))
     = Some [(''abcdefghijk_2'', Processing)]
   \<and> map_option (\<lambda>s. map (\<lambda>(k, d). (k, status d, progress d)) (activeDownloads s))
        (run (start_script @ [StdoutData ''abcdefghijk_2'' line45]) (init ''/d'' (\<lambda>_. None)))
     = Some [(''abcdefghijk_2'', Downloading, 453 / 10)]
   \<and> map_option (\<lambda>s. map (\<lambda>(k, d). (k, status d, progress d)) (activeDownloads s))
        (run (start_script @ [StdoutData ''abcdefghijk_2'' line45, ServeFile ''abcdefghijk_2''])
           (init ''/d'' (\<lambda>_. None)))
     = Some [(''abcdefghijk_2'', Queued, 0)]
   \<and> map_option (\<lambda>s. map (\<lambda>(k, d). (k, status d, progress d)) (activeDownloads s))
        (run (start_script @ [StdoutData ''abcdefghijk_2'' line45, ServeFile ''abcdefghijk_2'',
                              Close ''abcdefghijk_2'' (Some 0), VerifyDone ''abcdefghijk_2'' ''720p'' True])
           (init ''/d'' (\<lambda>_. None)))
     = Some [(''abcdefghijk_2'', Completed, 100)]"
  by (simp add: start_script_def vid1 son pm1 pm2 bo1 model_defs serveFileHandler_def
      lookup_entry_def mark_for_redownload_def)

section \<open>Failures and the answer to the download request\<close>

lemma download_failed_settle:
  assumes "map_get (activeDownloads s) i = Some d"
  shows "failed_with (download_failed s i c m) i"
  using assms
  by (simp add: failed_with_def download_failed_def map_get_update mark_error_def)

lemma attempt_failed_settle:
  assumes "map_get (activeDownloads s) i = Some d"
    and "jobs (attempt_failed s i c rc rd m) i = Some c'" and "phase c' = Settled"
  shows "failed_with (attempt_failed s i c rc rd m) i"
proof (cases "rc + 1 < maxRetries")
  case True
  with assms(2,3) show ?thesis by (auto simp: attempt_failed_def)
next
  case False
  with download_failed_settle [OF assms(1)] show ?thesis
    by (simp add: attempt_failed_def)
qed

lemma settle_effect:
  assumes "step e s = Some s'" and "sys_ok s" and "jobs s i = Some c" and "phase c \<noteq> Settled"
    and "jobs s' i = Some c'" and "phase c' = Settled"
  shows "failure_event e i \<and> failed_with s' i
       \<or> (\<exists>q. e = VerifyDone i q True)
           \<and> (\<exists>d'. map_get (activeDownloads s') i = Some d' \<and> status d' = Completed)
           \<and> actions s' = actions s @ [Respond (Response 200 (StartedBody i))]"
proof -
  from assms(2,3) obtain d where d: "map_get (activeDownloads s) i = Some d"
    by (rule inv_get)
  show ?thesis
  proof (cases e)
    case (Request url q pl t1 t2)
    with step_Request_shape [of url q pl t1 t2 s s'] assms show ?thesis
      by (auto simp: new_ctl_def split: if_splits)
  next
    case (InfoDone j r ts)
    with assms obtain c0 where c0: "jobs s j = Some c0" "phase c0 = GettingInfo"
      by (auto split: option.splits if_splits)
    have ji: "j = i"
      using assms InfoDone c0
      by (cases r) (auto simp: download_failed_def info_resolved_def Let_def split: if_splits)
    show ?thesis
    proof (cases r)
      case (Inl m)
      with assms(1) InfoDone c0 have "s' = download_failed s j c0 m" by simp
      with ji d InfoDone Inl show ?thesis
        by (simp add: failure_event_def download_failed_settle)
    next
      case (Inr out)
      with assms InfoDone c0 ji show ?thesis
        by (auto simp: info_resolved_def Let_def)
    qed
  next
    case (StdoutData j out)
    with assms show ?thesis by (auto simp: on_stdout_def split: option.splits if_splits)
  next
    case (StderrData j err)
    with assms show ?thesis by (auto split: option.splits if_splits)
  next
    case (Close j code)
    with assms obtain c0 where c0: "jobs s j = Some c0"
      and s': "s' = on_close s j (c0\<lparr>proc := Exited code\<rparr>) code"
      by (auto split: option.splits if_splits)
    show ?thesis
    proof (cases "j = i")
      case False
      with s' assms(3-6) show ?thesis
        by (auto simp: on_close_def attempt_failed_def download_failed_def
            split: if_splits phase.splits)
    next
      case True
      show ?thesis
      proof (cases "code = Some 0")
        case z: True
        with s' True assms(3-6) c0 show ?thesis
          by (auto simp: on_close_def split: phase.splits)
      next
        case nz: False
        with s' True assms(3-6) c0 d Close show ?thesis
          by (auto simp: on_close_def failure_event_def split: phase.splits
              intro: attempt_failed_settle)
      qed
    qed
  next
    case (ProcError j m)
    with assms obtain c0 rc rd t where c0: "jobs s j = Some c0" "phase c0 = Waiting rc rd t"
      and s': "s' = attempt_failed s j (if t = Cleared then c0\<lparr>stale := stale c0 + 1\<rparr> else c0) rc rd m"
      by (auto split: option.splits phase.splits)
    show ?thesis
    proof (cases "j = i")
      case False
      with s' assms(3-6) show ?thesis
        by (auto simp: attempt_failed_def download_failed_def split: if_splits)
    next
      case True
      with s' assms(5,6) d ProcError show ?thesis
        by (auto simp: failure_event_def intro: attempt_failed_settle)
    qed
  next
    case (Timeout j)
    with assms obtain c0 rc rd where c0: "jobs s j = Some c0" "phase c0 = Waiting rc rd Armed"
      and s': "s' = attempt_failed (s\<lparr>actions := actions s @ [Kill j]\<rparr>) j c0 rc rd ''Download timeout''"
      by (auto split: option.splits phase.splits if_splits timer.splits)
    show ?thesis
    proof (cases "j = i")
      case False
      with s' assms(3-6) show ?thesis
        by (auto simp: attempt_failed_def download_failed_def split: if_splits)
    next
      case True
      have "map_get (activeDownloads (s\<lparr>actions := actions s @ [Kill j]\<rparr>)) i = Some d"
        using d by simp
      with s' True assms(5,6) Timeout show ?thesis
        by (auto simp: failure_event_def intro: attempt_failed_settle)
    qed
  next
    case (VerifyDone j q own)
    with assms d show ?thesis
      by (auto simp: completed_write_def map_get_update mark_completed_def
          split: option.splits phase.splits if_splits)
  next
    case (SleepDone j)
    with assms show ?thesis by (auto split: option.splits phase.splits if_splits)
  next
    case (CheckFile j)
    with assms show ?thesis
      by (auto simp: checkFileHandler_def respond_def split: option.splits if_splits prod.splits)
  next
    case (ServeFile j)
    with assms show ?thesis
      by (auto simp: serveFileHandler_def respond_def split: option.splits if_splits prod.splits)
  next
    case (DeleteDownload j)
    with assms deleteDownloadHandler_jobs [of s j] show ?thesis
      by (auto simp: respond_def split: prod.splits)
  next
    case (GetFilePath j)
    with assms show ?thesis
      by (auto simp: getDownloadFilePath_def createDummyVideoFile_def Let_def
          split: option.splits if_splits)
  next
    case (StreamOpened p)
    with assms show ?thesis by (auto simp: stream_opened_def split: if_splits)
  next
    case (External fs)
    with assms show ?thesis by auto
  qed
qed

lemma download_failed_recorded:
  assumes "map_get (activeDownloads s) i = Some d" and "actions s = actions s0 \<or> actions s = actions s0 @ [Kill i]"
  shows "recorded_and_answered s0 (download_failed s i c m) i (or_else (Some m) ''Download failed'')"
  using assms
  by (auto simp: recorded_and_answered_def download_failed_def map_get_update mark_error_def)

lemma attempt_failed_recorded:
  assumes "map_get (activeDownloads s) i = Some d" and "maxRetries \<le> rc + 1"
    and "actions s = actions s0 \<or> actions s = actions s0 @ [Kill i]"
  shows "recorded_and_answered s0 (attempt_failed s i c rc rd m) i (or_else (Some m) ''Download failed'')"
  using assms(2) download_failed_recorded [OF assms(1,3)]
  by (simp add: attempt_failed_def)

lemma or_else_nonempty: "m \<noteq> [] \<Longrightarrow> or_else (Some m) d = m"
  by (simp add: or_else_def)

text \<open>
  C9, as amended: in every state that the server reaches, a download request without a URL
  is answered with status 400 and creates no job; and for a job whose call of
  \<open>downloadFromUrl\<close> is in flight, a failure of the title command, and a failure of an
  attempt (exit with a code other than 0, timeout, or \<open>error\<close> event of the process) when
  no retry is left, is taken up by the server, is recorded on the record of the job (status
  \<open>error\<close> and the error message) and is answered to the download request with status 500
  and the same message.
\<close>

theorem failures_recorded_and_answered:
  assumes "run evs (init dir fs) = Some s" and "\<not> crashed s"
  shows "(\<forall>url q pl t1 t2. \<not> truthy url \<longrightarrow>
            (\<exists>s'. run (evs @ [Request url q pl t1 t2]) (init dir fs) = Some s'
               \<and> activeDownloads s' = activeDownloads s \<and> jobs s' = jobs s
               \<and> actions s' = actions s @ [Respond (Response 400 (ErrorBody ''YouTube URL is required''))]))
       \<and> (\<forall>i c. jobs s i = Some c \<and> phase c = GettingInfo \<longrightarrow>
            (\<forall>m ts. \<exists>s'. run (evs @ [InfoDone i (Inl m) ts]) (init dir fs) = Some s'
               \<and> recorded_and_answered s s' i (or_else (Some m) ''Download failed'')))
       \<and> (\<forall>i c rc rd t. jobs s i = Some c \<and> phase c = Waiting rc rd t \<and> maxRetries \<le> rc + 1 \<longrightarrow>
            (\<forall>code. proc c = Running \<and> code \<noteq> Some 0 \<longrightarrow>
               (\<exists>s'. run (evs @ [Close i code]) (init dir fs) = Some s'
                  \<and> recorded_and_answered s s' i (''Download failed with code '' @ code_string code)))
            \<and> (t = Armed \<longrightarrow>
                 (\<exists>s'. run (evs @ [Timeout i]) (init dir fs) = Some s'
                    \<and> recorded_and_answered s s' i ''Download timeout''))
            \<and> (\<forall>m. \<exists>s'. run (evs @ [ProcError i m]) (init dir fs) = Some s'
                    \<and> recorded_and_answered s s' i (or_else (Some m) ''Download failed'')))"
proof -
  have ok: "sys_ok s"
    using inv_init assms(1) by (rule inv_run)
  have r: "run (evs @ [e]) (init dir fs) = step e s" for e
    using assms(1,2) by (simp add: run_snoc)
  have 1: "\<exists>s'. run (evs @ [Request url q pl t1 t2]) (init dir fs) = Some s'
               \<and> activeDownloads s' = activeDownloads s \<and> jobs s' = jobs s
               \<and> actions s' = actions s @ [Respond (Response 400 (ErrorBody ''YouTube URL is required''))]"
    if "\<not> truthy url" for url q pl t1 t2
    using that by (cases url) (auto simp: r downloadHandler_def respond_def)
  have 2: "\<exists>s'. run (evs @ [InfoDone i (Inl m) ts]) (init dir fs) = Some s'
               \<and> recorded_and_answered s s' i (or_else (Some m) ''Download failed'')"
    if "jobs s i = Some c" "phase c = GettingInfo" for i c m ts
  proof -
    from ok that(1) obtain d where d: "map_get (activeDownloads s) i = Some d"
      by (rule inv_get)
    from that download_failed_recorded [OF d, of s c m] show ?thesis
      by (simp add: r)
  qed
  have 3: "\<exists>s'. run (evs @ [Close i code]) (init dir fs) = Some s'
                  \<and> recorded_and_answered s s' i (''Download failed with code '' @ code_string code)"
    if "jobs s i = Some c" "phase c = Waiting rc rd t" "maxRetries \<le> rc + 1" "proc c = Running"
      "code \<noteq> Some 0"
    for i c rc rd t code
  proof -
    from ok that(1) obtain d where d: "map_get (activeDownloads s) i = Some d"
      by (rule inv_get)
    have "step (Close i code) s
            = Some (attempt_failed s i (c\<lparr>proc := Exited code\<rparr>) rc rd
                      (''Download failed with code '' @ code_string code))"
      using that by (simp add: on_close_def)
    moreover have "recorded_and_answered s
          (attempt_failed s i (c\<lparr>proc := Exited code\<rparr>) rc rd
             (''Download failed with code '' @ code_string code)) i
          (or_else (Some (''Download failed with code '' @ code_string code)) ''Download failed'')"
      using d that(3) by (rule attempt_failed_recorded) simp
    ultimately show ?thesis
      by (simp add: r or_else_nonempty)
  qed
  have 4: "\<exists>s'. run (evs @ [Timeout i]) (init dir fs) = Some s'
                    \<and> recorded_and_answered s s' i ''Download timeout''"
    if "jobs s i = Some c" "phase c = Waiting rc rd Armed" "maxRetries \<le> rc + 1" for i c rc rd
  proof -
    from ok that(1) obtain d where d: "map_get (activeDownloads s) i = Some d"
      by (rule inv_get)
    have "step (Timeout i) s
            = Some (attempt_failed (s\<lparr>actions := actions s @ [Kill i]\<rparr>) i c rc rd ''Download timeout'')"
      using that by simp
    moreover have "recorded_and_answered s
          (attempt_failed (s\<lparr>actions := actions s @ [Kill i]\<rparr>) i c rc rd ''Download timeout'') i
          (or_else (Some ''Download timeout'') ''Download failed'')"
    proof -
      have "map_get (activeDownloads (s\<lparr>actions := actions s @ [Kill i]\<rparr>)) i = Some d"
        using d by simp
      then show ?thesis
        using that(3) by (rule attempt_failed_recorded) simp
    qed
    ultimately show ?thesis
      by (simp add: r or_else_nonempty)
  qed
  have 5: "\<exists>s'. run (evs @ [ProcError i m]) (init dir fs) = Some s'
                    \<and> recorded_and_answered s s' i (or_else (Some m) ''Download failed'')"
    if "jobs s i = Some c" "phase c = Waiting rc rd t" "maxRetries \<le> rc + 1" for i c rc rd t m
  proof -
    from ok that(1) obtain d where d: "map_get (activeDownloads s) i = Some d"
      by (rule inv_get)
    have "step (ProcError i m) s
            = Some (attempt_failed s i (if t = Cleared then c\<lparr>stale := stale c + 1\<rparr> else c) rc rd m)"
      using that by simp
    moreover have "recorded_and_answered s
          (attempt_failed s i (if t = Cleared then c\<lparr>stale := stale c + 1\<rparr> else c) rc rd m) i
          (or_else (Some m) ''Download failed'')"
      using d that(3) by (rule attempt_failed_recorded) simp
    ultimately show ?thesis
      by (simp add: r)
  qed
  show ?thesis
    apply (intro conjI allI impI)
    subgoal by (rule 1)
    subgoal by (elim conjE, rule 2)
    subgoal by (elim conjE, rule 3)
    subgoal by (elim conjE, hypsubst, rule 4)
    subgoal by (elim conjE, rule 5)
    done
qed

lemma request1_state:
  "map_option (\<lambda>s. (crashed s, map_option phase (jobs s ''abcdefghijk_2'')))
     (run [request1] (init ''/d'' (\<lambda>_. None)))
   = Some (False, Some GettingInfo)"
  by (simp add: request1_def vid1 son model_defs)

lemma fail_prefix_state:
  "map_option (\<lambda>s. (crashed s, map_option phase (jobs s ''abcdefghijk_2'')))
     (run fail_prefix (init ''/d'' (\<lambda>_. None)))
   = Some (False, Some (Waiting 2 20000 Armed))"
  by (simp add: fail_prefix_def start_script_def vid1 son model_defs)

lemma timeout_prefix_state:
  "map_option (\<lambda>s. (crashed s, map_option (\<lambda>c. (phase c, proc c)) (jobs s ''abcdefghijk_2'')))
     (run timeout_prefix (init ''/d'' (\<lambda>_. None)))
   = Some (False, Some (Waiting 2 20000 Armed, Running))"
  by (simp add: timeout_prefix_def start_script_def vid1 son model_defs)

lemma recorded_and_answered_last:
  assumes "run evs s0 = Some s'" and "recorded_and_answered s s' i m"
  shows "map_option (\<lambda>s. (last (actions s), map_option status (map_get (activeDownloads s) i),
                            map_option message (map_get (activeDownloads s) i))) (run evs s0)
           = Some (Respond (Response 500 (ErrorBody m)), Some Error, Some (Some m))"
  using assms by (auto simp: recorded_and_answered_def)



theorem failures_recorded_and_answered_witness:
  "map_option (\<lambda>s. (last (actions s), map_option status (map_get (activeDownloads s) ''abcdefghijk_2''),
                     map_option message (map_get (activeDownloads s) ''abcdefghijk_2'')))
     (run ([request1] @ [InfoDone ''abcdefghijk_2'' (Inl ''Command failed'') 3]) (init ''/d'' (\<lambda>_. None)))
     = Some (Respond (Response 500 (ErrorBody ''Command failed'')), Some Error, Some (Some ''Command failed''))
   \<and> map_option (\<lambda>s. (last (actions s), map_option status (map_get (activeDownloads s) ''abcdefghijk_2''),
                     map_option message (map_get (activeDownloads s) ''abcdefghijk_2'')))
     (run (fail_prefix @ [Timeout ''abcdefghijk_2'']) (init ''/d'' (\<lambda>_. None)))
     = Some (Respond (Response 500 (ErrorBody ''Download timeout'')), Some Error, Some (Some ''Download timeout''))
   \<and> map_option (\<lambda>s. (last (actions s), map_option status (map_get (activeDownloads s) ''abcdefghijk_2''),
                     map_option message (map_get (activeDownloads s) ''abcdefghijk_2'')))
     (run (timeout_prefix @ [Close ''abcdefghijk_2'' (Some 1)]) (init ''/d'' (\<lambda>_. None)))
     = Some (Respond (Response 500 (ErrorBody ''Download failed with code 1'')), Some Error,
             Some (Some ''Download failed with code 1''))
   \<and> map_option (\<lambda>s. (last (actions s), map_option status (map_get (activeDownloads s) ''abcdefghijk_2''),
                     map_option message (map_get (activeDownloads s) ''abcdefghijk_2'')))
     (run (fail_prefix @ [ProcError ''abcdefghijk_2'' ''read ECONNRESET'']) (init ''/d'' (\<lambda>_. None)))
     = Some (Respond (Response 500 (ErrorBody ''read ECONNRESET'')), Some Error,
             Some (Some ''read ECONNRESET''))
   \<and> map_option (\<lambda>s. last (actions s))
     (run ([request1] @ [Request None ''720p'' False 4 5]) (init ''/d'' (\<lambda>_. None)))
     = Some (Respond (Response 400 (ErrorBody ''YouTube URL is required'')))"
proof -
  have m: "maxRetries \<le> 2 + 1" by (simp add: maxRetries_def)
  from request1_state obtain s1 c1
    where s1: "run [request1] (init ''/d'' (\<lambda>_. None)) = Some s1" "\<not> crashed s1"
      and c1: "jobs s1 ''abcdefghijk_2'' = Some c1" "phase c1 = GettingInfo"
    by (cases "run [request1] (init ''/d'' (\<lambda>_. None))") auto
  note t1 = failures_recorded_and_answered [OF s1, THEN conjunct2, THEN conjunct1, rule_format,
      OF conjI [OF c1]]
  from t1 [of "''Command failed''" 3]
  obtain s1' where r1: "run ([request1] @ [InfoDone ''abcdefghijk_2'' (Inl ''Command failed'') 3])
                      (init ''/d'' (\<lambda>_. None)) = Some s1'"
    and a1: "recorded_and_answered s1 s1' ''abcdefghijk_2'' (or_else (Some ''Command failed'') ''Download failed'')"
    by (elim exE conjE)
  from a1 have "recorded_and_answered s1 s1' ''abcdefghijk_2'' ''Command failed''"
    by (simp add: or_else_def)
  with r1 have a: "map_option (\<lambda>s. (last (actions s), map_option status (map_get (activeDownloads s) ''abcdefghijk_2''),
                     map_option message (map_get (activeDownloads s) ''abcdefghijk_2'')))
     (run ([request1] @ [InfoDone ''abcdefghijk_2'' (Inl ''Command failed'') 3]) (init ''/d'' (\<lambda>_. None)))
     = Some (Respond (Response 500 (ErrorBody ''Command failed'')), Some Error, Some (Some ''Command failed''))"
    by (rule recorded_and_answered_last)
  from fail_prefix_state obtain s2 c2
    where s2: "run fail_prefix (init ''/d'' (\<lambda>_. None)) = Some s2" "\<not> crashed s2"
      and c2: "jobs s2 ''abcdefghijk_2'' = Some c2" "phase c2 = Waiting 2 20000 Armed"
    by (cases "run fail_prefix (init ''/d'' (\<lambda>_. None))") auto
  note t2 = failures_recorded_and_answered [OF s2, THEN conjunct2, THEN conjunct2, rule_format,
      OF conjI [OF c2(1) conjI [OF c2(2) m]], THEN conjunct2, THEN conjunct1, rule_format, OF refl]
  from t2
  obtain s2' where "run (fail_prefix @ [Timeout ''abcdefghijk_2'']) (init ''/d'' (\<lambda>_. None)) = Some s2'"
    "recorded_and_answered s2 s2' ''abcdefghijk_2'' ''Download timeout''"
    by (elim exE conjE)
  then have b: "map_option (\<lambda>s. (last (actions s), map_option status (map_get (activeDownloads s) ''abcdefghijk_2''),
                     map_option message (map_get (activeDownloads s) ''abcdefghijk_2'')))
     (run (fail_prefix @ [Timeout ''abcdefghijk_2'']) (init ''/d'' (\<lambda>_. None)))
     = Some (Respond (Response 500 (ErrorBody ''Download timeout'')), Some Error, Some (Some ''Download timeout''))"
    by (rule recorded_and_answered_last)
  from timeout_prefix_state obtain s3 c3
    where s3: "run timeout_prefix (init ''/d'' (\<lambda>_. None)) = Some s3" "\<not> crashed s3"
      and c3: "jobs s3 ''abcdefghijk_2'' = Some c3" "phase c3 = Waiting 2 20000 Armed" "proc c3 = Running"
    by (cases "run timeout_prefix (init ''/d'' (\<lambda>_. None))") auto
  have n: "Some (1::int) \<noteq> Some 0" by simp
  note t3 = failures_recorded_and_answered [OF s3, THEN conjunct2, THEN conjunct2, rule_format,
      OF conjI [OF c3(1) conjI [OF c3(2) m]], THEN conjunct1, rule_format, OF conjI [OF c3(3) n]]
  from t3
  obtain s3' where r3: "run (timeout_prefix @ [Close ''abcdefghijk_2'' (Some 1)]) (init ''/d'' (\<lambda>_. None)) = Some s3'"
    and a3: "recorded_and_answered s3 s3' ''abcdefghijk_2'' (''Download failed with code '' @ code_string (Some 1))"
    by (elim exE conjE)
  from a3 have "recorded_and_answered s3 s3' ''abcdefghijk_2'' ''Download failed with code 1''"
    by (simp add: code_string_def son)
  with r3 have c: "map_option (\<lambda>s. (last (actions s), map_option status (map_get (activeDownloads s) ''abcdefghijk_2''),
                     map_option message (map_get (activeDownloads s) ''abcdefghijk_2'')))
     (run (timeout_prefix @ [Close ''abcdefghijk_2'' (Some 1)]) (init ''/d'' (\<lambda>_. None)))
     = Some (Respond (Response 500 (ErrorBody ''Download failed with code 1'')), Some Error,
             Some (Some ''Download failed with code 1''))"
    by (rule recorded_and_answered_last)
  note t4 = failures_recorded_and_answered [OF s2, THEN conjunct2, THEN conjunct2, rule_format,
      OF conjI [OF c2(1) conjI [OF c2(2) m]], THEN conjunct2, THEN conjunct2, rule_format]
  from t4 [of "''read ECONNRESET''"]
  obtain s4' where r4: "run (fail_prefix @ [ProcError ''abcdefghijk_2'' ''read ECONNRESET''])
                          (init ''/d'' (\<lambda>_. None)) = Some s4'"
    and a4: "recorded_and_answered s2 s4' ''abcdefghijk_2''
               (or_else (Some ''read ECONNRESET'') ''Download failed'')"
    by (elim exE conjE)
  from a4 have "recorded_and_answered s2 s4' ''abcdefghijk_2'' ''read ECONNRESET''"
    by (simp add: or_else_def)
  with r4 have d: "map_option (\<lambda>s. (last (actions s), map_option status (map_get (activeDownloads s) ''abcdefghijk_2''),
                     map_option message (map_get (activeDownloads s) ''abcdefghijk_2'')))
     (run (fail_prefix @ [ProcError ''abcdefghijk_2'' ''read ECONNRESET'']) (init ''/d'' (\<lambda>_. None)))
     = Some (Respond (Response 500 (ErrorBody ''read ECONNRESET'')), Some Error,
             Some (Some ''read ECONNRESET''))"
    by (rule recorded_and_answered_last)
  have u: "\<not> truthy None" by simp
  note t5 = failures_recorded_and_answered [OF s1, THEN conjunct1, rule_format, OF u]
  from t5 [of "''720p''" False 4 5]
  obtain s5' where r5: "run ([request1] @ [Request None ''720p'' False 4 5]) (init ''/d'' (\<lambda>_. None)) = Some s5'"
    and a5: "actions s5' = actions s1 @ [Respond (Response 400 (ErrorBody ''YouTube URL is required''))]"
    by (elim exE conjE)
  from a5 have "last (actions s5') = Respond (Response 400 (ErrorBody ''YouTube URL is required''))"
    by simp
  with r5 have e: "map_option (\<lambda>s. last (actions s))
     (run ([request1] @ [Request None ''720p'' False 4 5]) (init ''/d'' (\<lambda>_. None)))
     = Some (Respond (Response 400 (ErrorBody ''YouTube URL is required'')))"
    by simp
  from a b c d e show ?thesis by (intro conjI)
qed

text \<open>
  C9 as stated fails: a request with a URL whose title command fails is answered with
  status 500 and the error message, besides the record of the job getting status
  \<open>error\<close>; and after the title command has ended well and the subprocess is running,
  the request has no answer yet.
\<close>

theorem failure_answered_counterexample:
  "map_option (\<lambda>s. (actions s, map (\<lambda>(k, d). (k, status d, message d)) (activeDownloads s)))
     (run info_fail_script (init ''/d'' (\<lambda>_. None)))
     = Some ([Respond (Response 500 (ErrorBody ''Command failed''))],
             [(''abcdefghijk_2'', Error, Some ''Command failed'')])
   \<and> map_option (\<lambda>s. (actions s, map (\<lambda>(k, d). (k, status d)) (activeDownloads s)))
        (run start_script (init ''/d'' (\<lambda>_. None)))
     = Some ([Spawn ''abcdefghijk_2''], [(''abcdefghijk_2'', Downloading)])"
  by (simp add: info_fail_script_def start_script_def vid1 son model_defs)

section \<open>The sequence of progress values\<close>

text \<open>
  C8 as stated fails: the subprocess prints 45.3 percent and then, for the next file of the
  same job, 20.0 percent; the stored progress goes from 45.3 to 20 while the status is
  \<open>downloading\<close>.
\<close>

theorem progress_decreases_counterexample:
  "map_option (\<lambda>s. map (\<lambda>(k, d). (k, status d, progress d)) (activeDownloads s))
        (run (start_script @ [StdoutData ''abcdefghijk_2'' line45]) (init ''/d'' (\<lambda>_. None)))
     = Some [(''abcdefghijk_2'', Downloading, 453 / 10)]
   \<and> map_option (\<lambda>s. map (\<lambda>(k, d). (k, status d, progress d)) (activeDownloads s))
        (run (start_script @ [StdoutData ''abcdefghijk_2'' line45, StdoutData ''abcdefghijk_2'' line20])
           (init ''/d'' (\<lambda>_. None)))
     = Some [(''abcdefghijk_2'', Downloading, 20)]"
  by (simp add: start_script_def vid1 son pm1 pm2 bo1 pm20 model_defs)

lemma stdout_writes_keys: "keys (stdout_writes st i out) = keys st"
  using stdout_writes_update [of st i out] by (auto simp: keys_update)

lemma stdout_writes_progress:
  assumes "i \<in> set (keys st)" and "progressMatch out = Some p"
  shows "\<exists>d. map_get (stdout_writes st i out) i = Some d \<and> progress d = min p 99"
proof -
  from assms(1) obtain d0 where d0: "map_get st i = Some d0"
    using map_get_None_iff [of st i] by auto
  from stdout_writes_update [of st i out] assms(2) obtain f
    where f: "stdout_writes st i out = update st i f" and p: "\<And>d. progress (f d) = min p 99"
    by auto
  from f d0 have "map_get (stdout_writes st i out) i = Some (f d0)"
    by (simp add: map_get_update)
  with p show ?thesis by simp
qed

lemma stdout_writes_status:
  "map_option status (map_get (stdout_writes st i out) k) = map_option status (map_get st k)"
proof -
  from stdout_writes_update [of st i out] obtain f
    where f: "stdout_writes st i out = update st i f" and s: "\<And>d. status (f d) = status d"
    by auto
  show ?thesis
    by (cases "map_get st i") (auto simp: f map_get_update s)
qed

lemma pm102: "progressMatch line102 = Some 102" "includes_str line102 ''[Merger]'' = False"
  by code_simp+

lemma bar_overflow_iff:
  "bar_overflow out = (\<exists>p. progressMatch out = Some p \<and> 102 \<le> p)"
proof (cases "progressMatch out")
  case None
  then show ?thesis by (simp add: bar_overflow_def)
next
  case (Some p)
  have "(50 - \<lfloor>p / 2\<rfloor> < 0) = (51 \<le> \<lfloor>p / 2\<rfloor>)" by linarith
  also have "\<dots> = (102 \<le> p)" by (simp add: le_floor_iff)
  finally show ?thesis using Some by (simp add: bar_overflow_def)
qed

lemma on_stdout_crashed: "crashed (on_stdout s i out) = (crashed s \<or> bar_overflow out)"
  by (simp add: on_stdout_def)

lemma on_stdout_store:
  "\<not> bar_overflow out \<Longrightarrow> activeDownloads (on_stdout s i out) = stdout_writes (activeDownloads s) i out"
  by (simp add: on_stdout_def)

lemma stored_progress_eq:
  "i \<in> set (keys (activeDownloads s)) \<Longrightarrow> \<not> crashed s \<Longrightarrow>
   stored_progress s i outs
     = map (\<lambda>p. min p 99) (takeWhile (\<lambda>p. p < 102) (List.map_filter progressMatch outs))"
proof (induction outs arbitrary: s)
  case Nil
  then show ?case by (simp add: List.map_filter_simps)
next
  case (Cons out outs)
  show ?case
  proof (cases "bar_overflow out")
    case True
    then obtain p where "progressMatch out = Some p" "102 \<le> p"
      by (auto simp: bar_overflow_iff)
    with True show ?thesis
      by (simp add: on_stdout_crashed List.map_filter_simps)
  next
    case False
    let ?s = "on_stdout s i out"
    from False Cons.prems have k: "i \<in> set (keys (activeDownloads ?s))" and c: "\<not> crashed ?s"
      by (simp_all add: on_stdout_crashed on_stdout_store stdout_writes_keys)
    show ?thesis
    proof (cases "progressMatch out")
      case None
      with Cons.IH [OF k c] c show ?thesis
        by (simp add: List.map_filter_simps)
    next
      case (Some p)
      with False have p: "p < 102" by (auto simp: bar_overflow_iff)
      from stdout_writes_progress [OF Cons.prems(1) Some] False
      obtain d where "map_get (activeDownloads ?s) i = Some d" "progress d = min p 99"
        by (auto simp: on_stdout_store)
      with Some p Cons.IH [OF k c] c show ?thesis
        by (simp add: List.map_filter_simps)
    qed
  qed
qed

lemma sorted_map_min: "sorted xs \<Longrightarrow> sorted (map (\<lambda>p. min p (99::rat)) xs)"
  by (induction xs) (auto simp: min_def)

lemma sorted_stored:
  "sorted xs \<Longrightarrow> sorted (map (\<lambda>p. min p (99::rat)) (takeWhile (\<lambda>p. p < 102) xs))"
  by (rule sorted_map_min) (rule sorted_takeWhile)

text \<open>
  C8, as amended: for every job in the map and every sequence of chunks of subprocess
  output, the progress value stored for a chunk with a percentage \<open>p\<close> below 102 is
  \<open>min p 99\<close>, whatever was stored before, and a chunk with a percentage of 102 or more
  makes the listener throw before it writes, which ends the server; so the sequence stored
  up to there is non-decreasing whenever the percentages that the subprocess prints are
  non-decreasing. A chunk of output leaves the status as it is, and the re-queueing of a job
  sets the progress to 0 together with the status \<open>queued\<close>.
\<close>

theorem stored_progress_follows_output:
  assumes "i \<in> set (keys (activeDownloads s))" and "\<not> crashed s"
  shows "stored_progress s i outs
           = map (\<lambda>p. min p 99) (takeWhile (\<lambda>p. p < 102) (List.map_filter progressMatch outs))
       \<and> (sorted (List.map_filter progressMatch outs) \<longrightarrow> sorted (stored_progress s i outs))
       \<and> (\<forall>p. progressMatch out = Some p \<and> 102 \<le> p \<longrightarrow> on_stdout s i out = s\<lparr>crashed := True\<rparr>)
       \<and> (\<not> crashed (on_stdout s i out) \<longrightarrow>
            map_option status (map_get (activeDownloads (on_stdout s i out)) i)
              = map_option status (map_get (activeDownloads s) i))
       \<and> status (mark_for_redownload d) = Queued \<and> progress (mark_for_redownload d) = 0"
proof -
  have 1: "on_stdout s i out = s\<lparr>crashed := True\<rparr>" if "progressMatch out = Some p" "102 \<le> p" for p
    using that bar_overflow_iff [of out] by (simp add: on_stdout_def)
  have 2: "map_option status (map_get (activeDownloads (on_stdout s i out)) i)
              = map_option status (map_get (activeDownloads s) i)"
    if "\<not> crashed (on_stdout s i out)"
    using that by (simp add: on_stdout_crashed on_stdout_store stdout_writes_status)
  from 1 2 show ?thesis
    using assms by (simp add: stored_progress_eq sorted_stored mark_for_redownload_def)
qed

theorem stored_progress_follows_output_witness:
  "stored_progress downloading_sys ''abcdefghijk_2'' [line20, line45, line102] = [20, 453 / 10]
   \<and> sorted (stored_progress downloading_sys ''abcdefghijk_2'' [line20, line45, line102])
   \<and> crashed (on_stdout downloading_sys ''abcdefghijk_2'' line102)
   \<and> map_option status
        (map_get (activeDownloads (on_stdout downloading_sys ''abcdefghijk_2'' line45)) ''abcdefghijk_2'')
       = Some Downloading"
proof -
  have k: "''abcdefghijk_2'' \<in> set (keys (activeDownloads downloading_sys))"
    "\<not> crashed downloading_sys"
    by (simp_all add: downloading_sys_def downloading_store_def keys_def init_def)
  have m: "List.map_filter progressMatch [line20, line45, line102] = [20, 453 / 10, 102]"
    by (simp add: List.map_filter_simps pm1 pm20 pm102)
  have c: "\<not> crashed (on_stdout downloading_sys ''abcdefghijk_2'' line45)"
    using k(2) by (simp add: on_stdout_crashed bo1)
  have d: "map_option status (map_get (activeDownloads downloading_sys) ''abcdefghijk_2'') = Some Downloading"
    by (simp add: downloading_sys_def downloading_store_def init_def)
  from stored_progress_follows_output [OF k, of "[line20, line45, line102]" line102] m pm102(1)
  have "stored_progress downloading_sys ''abcdefghijk_2'' [line20, line45, line102] = [20, 453 / 10]
   \<and> sorted (stored_progress downloading_sys ''abcdefghijk_2'' [line20, line45, line102])
   \<and> crashed (on_stdout downloading_sys ''abcdefghijk_2'' line102)"
    by simp
  moreover from stored_progress_follows_output [OF k, of "[]" line45] c d
  have "map_option status
        (map_get (activeDownloads (on_stdout downloading_sys ''abcdefghijk_2'' line45)) ''abcdefghijk_2'')
       = Some Downloading"
    by simp
  ultimately show ?thesis by simp
qed

section \<open>Reusing an existing job\<close>

lemma find_filter: "find P (filter Q xs) = find (\<lambda>x. Q x \<and> P x) xs"
  by (induction xs) auto

lemma find_Some_in: "find P xs = Some x \<Longrightarrow> x \<in> set xs \<and> P x"
  by (induction xs) (auto split: if_splits)

lemma completedDownload_find:
  "completedDownload st vid = find (\<lambda>e. same_video vid e \<and> is_done e) st"
  by (simp add: completedDownload_def existingDownloads_def find_filter same_video_def
      is_done_def startsWith_prefix case_prod_unfold)

lemma inProgressDownload_find:
  "inProgressDownload st vid = find (\<lambda>e. same_video vid e \<and> in_flight e) st"
  by (simp add: inProgressDownload_def existingDownloads_def find_filter same_video_def
      in_flight_def startsWith_prefix case_prod_unfold)

text \<open>
  C1: for every request URL, with \<open>vid\<close> its resolved video id: when a stored job for
  the video is done, \<open>downloadFromUrl\<close> returns the id of such a job and creates no
  record, also when a job in flight exists; otherwise, when a stored job for the video is
  in flight, it returns the id of such a job and creates no record; only when neither
  exists is a new record created, under the new job id and with the state of a new job.
\<close>

theorem downloadFromUrl_reuses_existing_job:
  assumes "vid = extractVideoId url t1"
    and "r = downloadFromUrl_start s url q pl t1 t2"
  shows "((\<exists>e \<in> set (activeDownloads s). same_video vid e \<and> is_done e) \<longrightarrow>
            (\<exists>e \<in> set (activeDownloads s). same_video vid e \<and> is_done e \<and> reused s r (fst e)))
       \<and> (\<not> (\<exists>e \<in> set (activeDownloads s). same_video vid e \<and> is_done e)
            \<and> (\<exists>e \<in> set (activeDownloads s). same_video vid e \<and> in_flight e) \<longrightarrow>
            (\<exists>e \<in> set (activeDownloads s). same_video vid e \<and> in_flight e \<and> reused s r (fst e)))
       \<and> (\<not> (\<exists>e \<in> set (activeDownloads s). same_video vid e \<and> is_done e)
            \<and> \<not> (\<exists>e \<in> set (activeDownloads s). same_video vid e \<and> in_flight e)
            \<and> new_downloadId pl vid t2 \<notin> set (keys (activeDownloads s)) \<longrightarrow>
            (\<exists>s'. r = Some s'
               \<and> activeDownloads s' = activeDownloads s @ [(new_downloadId pl vid t2, new_record vid)]
               \<and> jobs s' = (jobs s)(new_downloadId pl vid t2 \<mapsto> new_ctl vid q)
               \<and> actions s' = actions s))"
proof -
  let ?st = "activeDownloads s"
  let ?D = "\<lambda>e. same_video vid e \<and> is_done e"
  let ?F = "\<lambda>e. same_video vid e \<and> in_flight e"
  have A: "\<exists>e \<in> set ?st. ?D e \<and> reused s r (fst e)" if "\<exists>e \<in> set ?st. ?D e"
  proof -
    from that obtain e where e: "find ?D ?st = Some e"
      using find_None_set [of ?D ?st] by (cases "find ?D ?st") auto
    then have "e \<in> set ?st \<and> ?D e" by (rule find_Some_in)
    moreover from e have "reused s r (fst e)"
      by (cases e)
         (simp add: assms downloadFromUrl_start_def completedDownload_find Let_def reused_def
           respond_def)
    ultimately show ?thesis by blast
  qed
  have B: "\<exists>e \<in> set ?st. ?F e \<and> reused s r (fst e)"
    if "\<not> (\<exists>e \<in> set ?st. ?D e)" "\<exists>e \<in> set ?st. ?F e"
  proof -
    from that(1) have n: "find ?D ?st = None"
      by (simp add: find_None_set)
    from that(2) obtain e where e: "find ?F ?st = Some e"
      using find_None_set [of ?F ?st] by (cases "find ?F ?st") auto
    then have "e \<in> set ?st \<and> ?F e" by (rule find_Some_in)
    moreover from n e have "reused s r (fst e)"
      by (cases e)
         (simp add: assms downloadFromUrl_start_def completedDownload_find
           inProgressDownload_find Let_def reused_def respond_def)
    ultimately show ?thesis by blast
  qed
  have C: "\<exists>s'. r = Some s'
               \<and> activeDownloads s' = ?st @ [(new_downloadId pl vid t2, new_record vid)]
               \<and> jobs s' = (jobs s)(new_downloadId pl vid t2 \<mapsto> new_ctl vid q)
               \<and> actions s' = actions s"
    if "\<not> (\<exists>e \<in> set ?st. ?D e)" "\<not> (\<exists>e \<in> set ?st. ?F e)"
      "new_downloadId pl vid t2 \<notin> set (keys ?st)"
  proof -
    from that(1) have n1: "find ?D ?st = None"
      by (simp add: find_None_set)
    from that(2) have n2: "find ?F ?st = None"
      by (simp add: find_None_set)
    from n1 n2 that(3) show ?thesis
      by (simp add: assms downloadFromUrl_start_def completedDownload_find
          inProgressDownload_find Let_def map_set_fresh)
  qed
  from A B C show ?thesis by blast
qed

theorem downloadFromUrl_reuses_existing_job_witness:
  "reused two_jobs
     (downloadFromUrl_start two_jobs ''https://youtu.be/abcdefghijk'' ''720p'' False 8 9)
     ''abcdefghijk_5''"
proof -
  have v: "''abcdefghijk'' = extractVideoId ''https://youtu.be/abcdefghijk'' 8"
    by (simp add: vid1)
  have "\<exists>e \<in> set (activeDownloads two_jobs). same_video ''abcdefghijk'' e \<and> is_done e"
    by (simp add: two_jobs_def rec_done_def init_def same_video_def is_done_def)
  with downloadFromUrl_reuses_existing_job [OF v refl, of two_jobs "''720p''" False 9]
  have "\<exists>e \<in> set (activeDownloads two_jobs). same_video ''abcdefghijk'' e \<and> is_done e
          \<and> reused two_jobs
               (downloadFromUrl_start two_jobs ''https://youtu.be/abcdefghijk'' ''720p'' False 8 9)
               (fst e)"
    by blast
  then show ?thesis
    by (auto simp: two_jobs_def rec_done_def init_def is_done_def)
qed

end
